theory Spec2Isabelle
  imports Main "HOL-Library.Word"
begin

unbundle bit_operations_syntax

section \<open>Strings\<close>

text \<open>
  A Python \<open>str\<close> is a sequence of Unicode code points; \<open>ord\<close> reads one as an
  unbounded integer. A string is modelled as the list of its code points.
  \<open>codepoints\<close> turns an ASCII literal into such a list.
\<close>

type_synonym pystr = "nat list"

definition codepoints :: "string \<Rightarrow> pystr" where
  "codepoints s = map of_char s"

text \<open>
  \<open>str.isspace\<close> of CPython: the code points whose bidirectional class is WS, B or S,
  or whose general category is Zs.
\<close>

definition isspace :: "nat \<Rightarrow> bool" where
  "isspace c \<longleftrightarrow>
     (0x09 \<le> c \<and> c \<le> 0x0D) \<or> (0x1C \<le> c \<and> c \<le> 0x20) \<or> c = 0x85 \<or> c = 0xA0 \<or>
     c = 0x1680 \<or> (0x2000 \<le> c \<and> c \<le> 0x200A) \<or> c = 0x2028 \<or> c = 0x2029 \<or>
     c = 0x202F \<or> c = 0x205F \<or> c = 0x3000"

text \<open>\<open>str.strip()\<close> without argument: whitespace is removed at both ends.\<close>

definition strip :: "pystr \<Rightarrow> pystr" where
  "strip s = rev (dropWhile isspace (rev (dropWhile isspace s)))"

text \<open>
  \<open>str.lower()\<close> is the case mapping of the Unicode database, which is no part of the
  program; every definition that lower-cases takes the mapping as its first argument
  \<open>lower\<close>. \<open>ascii_lower\<close> is that mapping on ASCII text, where it moves
  \<open>A\<close>..\<open>Z\<close> to \<open>a\<close>..\<open>z\<close> and keeps every other code point.
\<close>

definition ascii_lower :: "pystr \<Rightarrow> pystr" where
  "ascii_lower s = map (\<lambda>c. if 65 \<le> c \<and> c \<le> 90 then c + 32 else c) s"

section \<open>The hash\<close>

text \<open>
  \<open>joaat_hash\<close>, lines 17 to 33. Python integers are unbounded, so the accumulator is an
  \<open>int\<close> and every \<open>& 0xFFFFFFFF\<close> of the source is written out.
  \<open>joaat_loop\<close> is the \<open>for\<close> loop over the lower-cased text. The cache of
  line 17 only keeps results and is left out.
\<close>

definition joaat_step :: "int \<Rightarrow> nat \<Rightarrow> int" where
  "joaat_step hash_value char =
     (let h1 = (hash_value + int char) AND 0xFFFFFFFF;
          h2 = (h1 + push_bit 10 h1) AND 0xFFFFFFFF;
          h3 = (h2 XOR drop_bit 6 h2) AND 0xFFFFFFFF
      in h3)"

fun joaat_loop :: "int \<Rightarrow> pystr \<Rightarrow> int" where
  "joaat_loop hash_value [] = hash_value"
| "joaat_loop hash_value (char # rest) = joaat_loop (joaat_step hash_value char) rest"

definition joaat_final :: "int \<Rightarrow> int" where
  "joaat_final hash_value =
     (let h1 = (hash_value + push_bit 3 hash_value) AND 0xFFFFFFFF;
          h2 = (h1 XOR drop_bit 11 h1) AND 0xFFFFFFFF;
          h3 = (h2 + push_bit 15 h2) AND 0xFFFFFFFF
      in h3)"

text \<open>
  The format specification \<open>08X\<close>: upper-case hexadecimal, padded with zeros on the
  left to a width of at least 8, the sign of a negative number counted in the width.
\<close>

definition hex_digit :: "nat \<Rightarrow> nat" where
  "hex_digit d = (if d < 10 then 48 + d else 55 + d)"

function upper_hex :: "nat \<Rightarrow> pystr" where
  "upper_hex n = (if n < 16 then [hex_digit n] else upper_hex (n div 16) @ [hex_digit (n mod 16)])"
  by pat_completeness auto
termination
  by (relation "measure id") auto

declare upper_hex.simps [simp del]

definition zero_pad :: "nat \<Rightarrow> pystr \<Rightarrow> pystr" where
  "zero_pad width s = replicate (width - length s) 48 @ s"

definition format_08X :: "int \<Rightarrow> pystr" where
  "format_08X v =
     (if v < 0 then 45 # zero_pad 7 (upper_hex (nat (- v))) else zero_pad 8 (upper_hex (nat v)))"

definition joaat_hash :: "(pystr \<Rightarrow> pystr) \<Rightarrow> pystr \<Rightarrow> pystr" where
  "joaat_hash lower text =
     codepoints ''hash_'' @ format_08X (joaat_final (joaat_loop 0 (lower text)))"

section \<open>The table of names\<close>

text \<open>
  \<open>self.nametable\<close> is a dictionary from hash token to name: a map.
  \<open>load_nametable_lines\<close> is the dictionary comprehension of lines 44 to 48 over the
  lines of the opened file: each line is stripped, blank lines are skipped, and an entry
  stored later replaces an earlier one under the same key.
\<close>

type_synonym nametable = "pystr \<rightharpoonup> pystr"

fun load_nametable_lines :: "(pystr \<Rightarrow> pystr) \<Rightarrow> nametable \<Rightarrow> pystr list \<Rightarrow> nametable" where
  "load_nametable_lines lower table [] = table"
| "load_nametable_lines lower table (line # f) =
     (if strip line \<noteq> []
      then load_nametable_lines lower (table(joaat_hash lower (strip line) \<mapsto> strip line)) f
      else load_nametable_lines lower table f)"

section \<open>The token pattern and the substitution\<close>

text \<open>
  \<open>re.compile(r"hash_[0-9A-Fa-f]{8}")\<close>, line 38: a sequence of atoms that each consume
  one character, a literal or a bracket class given by its ranges.
\<close>

datatype atom = Lit nat | Class "(nat \<times> nat) list"

fun atom_matches :: "atom \<Rightarrow> nat \<Rightarrow> bool" where
  "atom_matches (Lit a) c = (c = a)"
| "atom_matches (Class ranges) c = list_ex (\<lambda>(lo, hi). lo \<le> c \<and> c \<le> hi) ranges"

definition hash_pattern :: "atom list" where
  "hash_pattern =
     map Lit (codepoints ''hash_'') @ replicate 8 (Class [(48, 57), (65, 70), (97, 102)])"

text \<open>Whether the pattern matches at the start of the text.\<close>

fun match_here :: "atom list \<Rightarrow> pystr \<Rightarrow> bool" where
  "match_here [] s = True"
| "match_here (a # as) [] = False"
| "match_here (a # as) (c # cs) = (atom_matches a c \<and> match_here as cs)"

text \<open>
  \<open>pattern.sub(repl, content)\<close> for a pattern of one or more such atoms: the text is
  scanned from the left; where the pattern matches, the match is replaced by \<open>repl\<close> of
  the matched text and the scan goes on behind the match; elsewhere the character is kept.
\<close>

function re_sub :: "atom list \<Rightarrow> (pystr \<Rightarrow> pystr) \<Rightarrow> pystr \<Rightarrow> pystr" where
  "re_sub pattern repl [] = []"
| "re_sub pattern repl (c # cs) =
     (if pattern \<noteq> [] \<and> match_here pattern (c # cs)
      then repl (take (length pattern) (c # cs))
             @ re_sub pattern repl (drop (length pattern) (c # cs))
      else c # re_sub pattern repl cs)"
  by pat_completeness auto
termination
  by (relation "measure (\<lambda>(pattern, repl, content). length content)") (auto simp: neq_Nil_conv)

declare re_sub.simps(2) [simp del]

text \<open>
  The replacement function of line 62, \<open>self.nametable.get(m.group(0), m.group(0))\<close>, and
  lines 61 to 67 without the file: the new content and whether it differs from the old.
\<close>

definition lookup_or_keep :: "nametable \<Rightarrow> pystr \<Rightarrow> pystr" where
  "lookup_or_keep nametable tok = (case nametable tok of Some name \<Rightarrow> name | None \<Rightarrow> tok)"

definition substitute :: "nametable \<Rightarrow> pystr \<Rightarrow> pystr" where
  "substitute nametable content = re_sub hash_pattern (lookup_or_keep nametable) content"

definition apply_substitution :: "nametable \<Rightarrow> pystr \<Rightarrow> pystr \<times> bool" where
  "apply_substitution nametable content =
     (let new_content = substitute nametable content in (new_content, new_content \<noteq> content))"

section \<open>Files\<close>

text \<open>
  The files the program opens, as text: \<open>decoded\<close> is what reading the file as UTF-8
  yields, \<open>None\<close> when its bytes do not decode. \<open>reads\<close> and \<open>writes\<close> count how often
  the file has been read and written, so that a read or a write that leaves the content
  as it was can still be told from none.
\<close>

datatype io_error = FileNotFoundError | PermissionError | UnicodeDecodeError

record text_file =
  decoded :: "pystr option"
  readable :: bool
  writable :: bool
  reads :: nat
  writes :: nat

type_synonym path = string
type_synonym filesystem = "path \<rightharpoonup> text_file"

text \<open>\<open>open(path, "r", encoding="utf-8")\<close> followed by reading the whole file.\<close>

definition read_text :: "path \<Rightarrow> filesystem \<Rightarrow> (io_error + pystr) \<times> filesystem" where
  "read_text p fs =
     (case fs p of
        None \<Rightarrow> (Inl FileNotFoundError, fs)
      | Some f \<Rightarrow>
          if \<not> readable f then (Inl PermissionError, fs)
          else (case decoded f of
                  None \<Rightarrow> (Inl UnicodeDecodeError, fs(p \<mapsto> f\<lparr>reads := Suc (reads f)\<rparr>))
                | Some s \<Rightarrow> (Inr s, fs(p \<mapsto> f\<lparr>reads := Suc (reads f)\<rparr>))))"

text \<open>\<open>open(path, "w", encoding="utf-8")\<close> followed by \<open>f.write\<close>; a missing file is created.\<close>

definition write_text :: "path \<Rightarrow> pystr \<Rightarrow> filesystem \<Rightarrow> (io_error + unit) \<times> filesystem" where
  "write_text p s fs =
     (case fs p of
        None \<Rightarrow>
          (Inr (), fs(p \<mapsto> \<lparr>decoded = Some s, readable = True, writable = True, reads = 0, writes = 1\<rparr>))
      | Some f \<Rightarrow>
          if \<not> writable f then (Inl PermissionError, fs)
          else (Inr (), fs(p \<mapsto> f\<lparr>decoded := Some s, writes := Suc (writes f)\<rparr>)))"

text \<open>
  Iterating over an open text file yields its lines, each with its newline, the last one
  without when the file does not end in one.
\<close>

fun file_lines :: "pystr \<Rightarrow> pystr \<Rightarrow> pystr list" where
  "file_lines line [] = (if line = [] then [] else [line])"
| "file_lines line (c # cs) =
     (if c = 10 then (line @ [c]) # file_lines [] cs else file_lines (line @ [c]) cs)"

text \<open>
  \<open>load_nametable\<close>, lines 40 to 52: the error of a failed read is logged and raised
  again; otherwise the table is the comprehension over the lines.
\<close>

definition load_nametable ::
  "(pystr \<Rightarrow> pystr) \<Rightarrow> path \<Rightarrow> filesystem \<Rightarrow> (io_error + nametable) \<times> filesystem" where
  "load_nametable lower filepath fs =
     (case read_text filepath fs of
        (Inl e, fs') \<Rightarrow> (Inl e, fs')
      | (Inr s, fs') \<Rightarrow> (Inr (load_nametable_lines lower Map.empty (file_lines [] s)), fs'))"

text \<open>
  \<open>process_xml_file\<close>, lines 54 to 76: read, substitute, write only when the content has
  changed; every error is logged and raised again.
\<close>

definition process_xml_file ::
  "nametable \<Rightarrow> path \<Rightarrow> filesystem \<Rightarrow> (io_error + unit) \<times> filesystem" where
  "process_xml_file nametable xml_file fs =
     (case read_text xml_file fs of
        (Inl e, fs') \<Rightarrow> (Inl e, fs')
      | (Inr content, fs') \<Rightarrow>
          (let (new_content, changed) = apply_substitution nametable content
           in if changed then write_text xml_file new_content fs' else (Inr (), fs')))"

text \<open>
  \<open>process_files\<close>, lines 78 to 81. \<open>executor.map\<close> submits one task per file, in the
  order of the list, and \<open>list\<close> retrieves the results in that order. Retrieving the
  result of a failed task raises its error; the tasks that have not started by then
  are cancelled, the running ones finish, and their own errors are dropped. Which of
  the later tasks had started is up to the thread pool: \<open>started j\<close> tells it for the
  task at position \<open>j\<close> of the list. Each task works on its own file, so the tasks are
  run one after the other here. \<open>raised\<close> is the error that \<open>list\<close> is about to raise.
\<close>

fun run_tasks ::
  "nametable \<Rightarrow> (nat \<Rightarrow> bool) \<Rightarrow> nat \<Rightarrow> path list \<Rightarrow> io_error option \<Rightarrow> filesystem
     \<Rightarrow> (io_error + unit) \<times> filesystem" where
  "run_tasks nametable started j [] raised fs =
     (case raised of None \<Rightarrow> (Inr (), fs) | Some e \<Rightarrow> (Inl e, fs))"
| "run_tasks nametable started j (xml_file # rest) None fs =
     (case process_xml_file nametable xml_file fs of
        (Inl e, fs') \<Rightarrow> run_tasks nametable started (Suc j) rest (Some e) fs'
      | (Inr u, fs') \<Rightarrow> run_tasks nametable started (Suc j) rest None fs')"
| "run_tasks nametable started j (xml_file # rest) (Some e) fs =
     (if started j
      then run_tasks nametable started (Suc j) rest (Some e)
             (snd (process_xml_file nametable xml_file fs))
      else run_tasks nametable started (Suc j) rest (Some e) fs)"

definition process_files ::
  "nametable \<Rightarrow> path list \<Rightarrow> (nat \<Rightarrow> bool) \<Rightarrow> filesystem \<Rightarrow> (io_error + unit) \<times> filesystem" where
  "process_files nametable xml_files started fs = run_tasks nametable started 0 xml_files None fs"

text \<open>
  \<open>main\<close>, lines 89 to 122, from the answers of the two file dialogs on: an empty answer
  ends the run without a message; an error raised by loading or processing is shown in
  an error box, and the success box is shown otherwise.
\<close>

datatype message = ShowInfo_Success | ShowError io_error

definition main ::
  "(pystr \<Rightarrow> pystr) \<Rightarrow> path \<Rightarrow> path list \<Rightarrow> (nat \<Rightarrow> bool) \<Rightarrow> filesystem
     \<Rightarrow> message option \<times> filesystem" where
  "main lower nametable_path xml_paths started fs =
     (if nametable_path = [] then (None, fs)
      else if xml_paths = [] then (None, fs)
      else (case load_nametable lower nametable_path fs of
              (Inl e, fs') \<Rightarrow> (Some (ShowError e), fs')
            | (Inr nametable, fs') \<Rightarrow>
                (case process_files nametable xml_paths started fs' of
                   (Inl e, fs'') \<Rightarrow> (Some (ShowError e), fs'')
                 | (Inr u, fs'') \<Rightarrow> (Some ShowInfo_Success, fs''))))"

section \<open>The hash as the specification words it\<close>

text \<open>
  The one-at-a-time hash on a 32-bit accumulator, where addition and the left shift wrap
  by themselves, and its rendering as eight hexadecimal digits, most significant first,
  each digit read from the table of the sixteen upper-case digits.
\<close>

definition spec_step :: "32 word \<Rightarrow> nat \<Rightarrow> 32 word" where
  "spec_step a c =
     (let a1 = a + of_nat c; a2 = a1 + push_bit 10 a1; a3 = a2 XOR drop_bit 6 a2 in a3)"

definition spec_final :: "32 word \<Rightarrow> 32 word" where
  "spec_final a =
     (let a1 = a + push_bit 3 a; a2 = a1 XOR drop_bit 11 a1; a3 = a2 + push_bit 15 a2 in a3)"

definition one_at_a_time :: "pystr \<Rightarrow> 32 word" where
  "one_at_a_time s = spec_final (foldl spec_step 0 s)"

definition spec_digit :: "nat \<Rightarrow> nat" where
  "spec_digit d = codepoints ''0123456789ABCDEF'' ! d"

definition spec_hex8 :: "32 word \<Rightarrow> pystr" where
  "spec_hex8 a = map (\<lambda>i. spec_digit (unat a div 16 ^ (7 - i) mod 16)) [0..<8]"

definition is_upper_hex :: "nat \<Rightarrow> bool" where
  "is_upper_hex c \<longleftrightarrow> (48 \<le> c \<and> c \<le> 57) \<or> (65 \<le> c \<and> c \<le> 70)"

section \<open>The token grammar as the specification words it\<close>

text \<open>
  A hexadecimal digit is one of \<open>0-9\<close>, \<open>A-F\<close> and \<open>a-f\<close>; a token is the tag
  \<open>hash_\<close> followed by exactly eight of them. \<open>token_at s j\<close>: a token starts at
  position \<open>j\<close> of \<open>s\<close>.
\<close>

definition is_hexdigit :: "nat \<Rightarrow> bool" where
  "is_hexdigit c \<longleftrightarrow> (48 \<le> c \<and> c \<le> 57) \<or> (65 \<le> c \<and> c \<le> 70) \<or> (97 \<le> c \<and> c \<le> 102)"

definition is_token :: "pystr \<Rightarrow> bool" where
  "is_token t \<longleftrightarrow>
     length t = 13 \<and> take 5 t = codepoints ''hash_'' \<and> list_all is_hexdigit (drop 5 t)"

definition token_at :: "pystr \<Rightarrow> nat \<Rightarrow> bool" where
  "token_at s j \<longleftrightarrow> is_token (take 13 (drop j s))"

definition contains_token :: "pystr \<Rightarrow> bool" where
  "contains_token s \<longleftrightarrow> list_ex (token_at s) [0..<length s]"

text \<open>
  A text cut into plain stretches and tokens. \<open>scanned\<close>: every \<open>Token\<close> is a token,
  and no token starts inside a \<open>Plain\<close> stretch, read on into the text behind it. The
  tokens of such a cut are the matches found from left to right, none overlapping
  another. \<open>replaced\<close> is what the specification asks of each part.
\<close>

datatype segment = Plain pystr | Token pystr

fun source_text :: "segment \<Rightarrow> pystr" where
  "source_text (Plain s) = s"
| "source_text (Token t) = t"

fun replaced :: "nametable \<Rightarrow> segment \<Rightarrow> pystr" where
  "replaced table (Plain s) = s"
| "replaced table (Token t) = (case table t of Some name \<Rightarrow> name | None \<Rightarrow> t)"

fun scanned :: "segment list \<Rightarrow> bool" where
  "scanned [] = True"
| "scanned (Plain s # segs) =
     (list_all (\<lambda>j. \<not> token_at (s @ concat (map source_text segs)) j) [0..<length s]
      \<and> scanned segs)"
| "scanned (Token t # segs) = (is_token t \<and> scanned segs)"

text \<open>A token with a lower-case letter \<open>a-f\<close> among its digits.\<close>

definition has_lower_hex :: "pystr \<Rightarrow> bool" where
  "has_lower_hex tok \<longleftrightarrow> list_ex (\<lambda>c. 97 \<le> c \<and> c \<le> 102) (drop 5 tok)"

section \<open>The batch as the specification sees it\<close>

text \<open>
  \<open>after_tasks table S fs\<close>: the files after exactly the files of \<open>S\<close> have been
  processed, each one as if it were processed alone. \<open>started_files\<close>: the files
  of a list, counted from position \<open>j\<close>, whose task had started. \<open>all_started\<close> and
  \<open>none_started\<close> are the two extreme runs of the thread pool.
\<close>

definition after_tasks :: "nametable \<Rightarrow> path set \<Rightarrow> filesystem \<Rightarrow> filesystem" where
  "after_tasks table S fs = (\<lambda>q. if q \<in> S then snd (process_xml_file table q fs) q else fs q)"

fun started_files :: "(nat \<Rightarrow> bool) \<Rightarrow> nat \<Rightarrow> path list \<Rightarrow> path list" where
  "started_files started j [] = []"
| "started_files started j (p # ps) =
     (if started j then p # started_files started (Suc j) ps
      else started_files started (Suc j) ps)"

definition all_started :: "nat \<Rightarrow> bool" where
  "all_started j = True"

definition none_started :: "nat \<Rightarrow> bool" where
  "none_started j = False"

section \<open>An example run\<close>

text \<open>
  A table with the one name \<open>a\<close>, and three files: the list of names, a file with a
  token of the table and a file without any token. No file \<open>a.xml\<close> exists.
\<close>

definition example_table :: nametable where
  "example_table = [codepoints ''hash_CA2E9442'' \<mapsto> codepoints ''a'']"

definition plain_file :: "pystr \<Rightarrow> text_file" where
  "plain_file s = \<lparr>decoded = Some s, readable = True, writable = True, reads = 0, writes = 0\<rparr>"

definition example_fs :: filesystem where
  "example_fs =
     [''names.txt'' \<mapsto> plain_file (codepoints ''a'' @ [10]),
      ''b.xml'' \<mapsto> plain_file (codepoints ''<hash_CA2E9442>''),
      ''c.xml'' \<mapsto> plain_file (codepoints ''<a>'')]"

section \<open>Masked integers are 32-bit words\<close>

lemma mask32: "(k::int) AND 0xFFFFFFFF = take_bit 32 k"
proof -
  have "(0xFFFFFFFF::int) = mask 32" by (simp add: mask_eq_exp_minus_1)
  then show ?thesis by (simp add: take_bit_eq_mask)
qed

lemma uint_wi32: "take_bit 32 k = uint (word_of_int k :: 32 word)"
  by (simp add: uint_word_of_int_eq)

lemma take_bit_uint32: "take_bit 32 (uint (w::32 word)) = uint w"
  using uint_lt2p [of w] by (simp add: take_bit_int_eq_self)

lemma uint_nat32: "take_bit 32 (uint (a::32 word) + int c) = uint (a + of_nat c)"
  by (simp add: uint_wi32)

lemma uint_push32:
  "take_bit 32 (uint (a::32 word) + push_bit n (uint a)) = uint (a + push_bit n a)"
  by (simp add: uint_wi32 of_int_push_bit)

lemma uint_xor_drop32:
  "take_bit 32 (uint (a::32 word) XOR drop_bit n (uint a)) = uint (a XOR drop_bit n a)"
proof -
  have "uint (a XOR drop_bit n a) = uint a XOR drop_bit n (uint a)"
    by (simp add: uint_xor unsigned_drop_bit_eq take_bit_uint32)
  then show ?thesis
    using take_bit_uint32 [of "a XOR drop_bit n a"] by simp
qed

lemma joaat_step_word: "joaat_step (uint a) c = uint (spec_step a c)"
  by (simp only: joaat_step_def spec_step_def Let_def mask32 uint_nat32 uint_push32
      uint_xor_drop32)

lemma joaat_final_word: "joaat_final (uint a) = uint (spec_final a)"
  by (simp only: joaat_final_def spec_final_def Let_def mask32 uint_nat32 uint_push32
      uint_xor_drop32)

lemma joaat_loop_word: "joaat_loop (uint a) s = uint (foldl spec_step a s)"
  by (induction s arbitrary: a) (simp_all add: joaat_step_word)

lemma joaat_value_word: "joaat_final (joaat_loop 0 s) = uint (one_at_a_time s)"
  using joaat_loop_word [of 0 s] by (simp add: one_at_a_time_def joaat_final_word)

subsection \<open>The format yields the eight digits\<close>

lemma upper_hex_small: "n < 16 \<Longrightarrow> upper_hex n = [hex_digit n]"
  by (simp add: upper_hex.simps)

lemma upper_hex_big:
  "\<not> n < 16 \<Longrightarrow> upper_hex n = upper_hex (n div 16) @ [hex_digit (n mod 16)]"
  by (simp add: upper_hex.simps [of n])

lemmas hash_eval = joaat_hash_def codepoints_def joaat_step_def joaat_final_def format_08X_def
  zero_pad_def upper_hex_small upper_hex_big hex_digit_def ascii_lower_def

lemma zero_pad_snoc: "zero_pad (Suc k) (xs @ [y]) = zero_pad k xs @ [y]"
  by (simp add: zero_pad_def)

lemma upper_hex_pad:
  "n < 16 ^ Suc k \<Longrightarrow>
   zero_pad (Suc k) (upper_hex n) = map (\<lambda>i. hex_digit (n div 16 ^ (k - i) mod 16)) [0..<Suc k]"
proof (induction k arbitrary: n)
  case 0
  then show ?case by (simp add: upper_hex.simps zero_pad_def)
next
  case (Suc k)
  let ?m = "n div 16"
  have m: "?m < 16 ^ Suc k" using Suc.prems by simp
  have ih: "zero_pad (Suc k) (upper_hex ?m)
      = map (\<lambda>i. hex_digit (?m div 16 ^ (k - i) mod 16)) [0..<Suc k]"
    by (rule Suc.IH [OF m])
  have shift: "\<And>i. i < Suc k \<Longrightarrow> ?m div 16 ^ (k - i) = n div 16 ^ (Suc k - i)"
    by (simp add: div_mult2_eq Suc_diff_le)
  have pad: "zero_pad (Suc (Suc k)) (upper_hex n)
      = zero_pad (Suc k) (upper_hex ?m) @ [hex_digit (n mod 16)]"
  proof (cases "n < 16")
    case True
    then have "upper_hex ?m = [hex_digit 0]" by (simp add: upper_hex.simps)
    with True show ?thesis
      by (simp add: upper_hex.simps [of n] zero_pad_def hex_digit_def replicate_append_same)
  next
    case False
    then show ?thesis by (simp add: upper_hex.simps [of n] zero_pad_snoc)
  qed
  have "map (\<lambda>i. hex_digit (n div 16 ^ (Suc k - i) mod 16)) [0..<Suc (Suc k)]
      = map (\<lambda>i. hex_digit (n div 16 ^ (Suc k - i) mod 16)) [0..<Suc k] @ [hex_digit (n mod 16)]"
    by simp
  also have "map (\<lambda>i. hex_digit (n div 16 ^ (Suc k - i) mod 16)) [0..<Suc k]
      = map (\<lambda>i. hex_digit (?m div 16 ^ (k - i) mod 16)) [0..<Suc k]"
    by (rule map_cong) (auto simp: shift)
  finally show ?case using pad ih by simp
qed

lemma hex_digit_table: "map hex_digit [0..<16] = codepoints ''0123456789ABCDEF''"
  by (simp add: upt_rec hex_digit_def codepoints_def)

lemma hex_digit_spec: "d < 16 \<Longrightarrow> hex_digit d = spec_digit d"
proof -
  assume d: "d < 16"
  then have "map hex_digit [0..<16] ! d = hex_digit d" by simp
  then show ?thesis by (simp add: hex_digit_table spec_digit_def)
qed

lemma spec_hex8_alt:
  "spec_hex8 a = map (\<lambda>i. hex_digit (unat a div 16 ^ (7 - i) mod 16)) [0..<8]"
  unfolding spec_hex8_def by (rule map_cong) (simp_all add: hex_digit_spec)

lemma format_08X_word: "format_08X (uint (a::32 word)) = spec_hex8 a"
proof -
  have "unat a < 16 ^ Suc 7" using unsigned_less [of a] by simp
  from upper_hex_pad [OF this] show ?thesis
    by (simp add: format_08X_def spec_hex8_alt del: upt_Suc)
qed

lemma hex_digit_upper: "d < 16 \<Longrightarrow> is_upper_hex (hex_digit d)"
  by (auto simp: is_upper_hex_def hex_digit_def)

lemma spec_hex8_shape: "length (spec_hex8 a) = 8 \<and> list_all is_upper_hex (spec_hex8 a)"
  by (simp add: spec_hex8_alt list_all_iff hex_digit_upper del: upt_Suc)

lemma joaat_hash_word:
  "joaat_hash lower s = codepoints ''hash_'' @ spec_hex8 (one_at_a_time (lower s))"
  by (simp add: joaat_hash_def joaat_value_word format_08X_word)

section \<open>The pattern matches tokens\<close>

lemma match_here_iff:
  "match_here p s \<longleftrightarrow> length p \<le> length s \<and> list_all2 atom_matches p (take (length p) s)"
  by (induction p s rule: match_here.induct) (simp_all add: conj_ac)

lemma length_hash_pattern: "length hash_pattern = 13"
  by (simp add: hash_pattern_def codepoints_def)

lemma hash_pattern_ne: "hash_pattern \<noteq> []"
  using length_hash_pattern by auto

lemma all2_Lit: "list_all2 atom_matches (map Lit l) u \<longleftrightarrow> u = l"
proof (induction l arbitrary: u)
  case Nil
  then show ?case by simp
next
  case (Cons a l)
  then show ?case by (cases u) simp_all
qed

lemma atom_matches_Class: "atom_matches (Class [(48, 57), (65, 70), (97, 102)]) c = is_hexdigit c"
  by (simp add: is_hexdigit_def)

lemma all2_replicate:
  "list_all2 P (replicate n x) v \<longleftrightarrow> length v = n \<and> list_all (P x) v"
proof (induction n arbitrary: v)
  case 0
  then show ?case by (cases v) simp_all
next
  case (Suc n)
  then show ?case by (cases v) auto
qed

lemma all2_Class:
  "list_all2 atom_matches (replicate n (Class [(48, 57), (65, 70), (97, 102)])) v
     \<longleftrightarrow> length v = n \<and> list_all is_hexdigit v"
proof -
  have "atom_matches (Class [(48, 57), (65, 70), (97, 102)]) = is_hexdigit"
    by (rule ext) (rule atom_matches_Class)
  then show ?thesis by (simp only: all2_replicate)
qed

lemma all2_hash_pattern:
  "length t = 13 \<Longrightarrow> list_all2 atom_matches hash_pattern t \<longleftrightarrow> is_token t"
proof -
  assume len: "length t = 13"
  have split: "t = take 5 t @ drop 5 t" by simp
  have "list_all2 atom_matches hash_pattern (take 5 t @ drop 5 t)
      \<longleftrightarrow> list_all2 atom_matches (map Lit (codepoints ''hash_'')) (take 5 t)
        \<and> list_all2 atom_matches (replicate 8 (Class [(48, 57), (65, 70), (97, 102)])) (drop 5 t)"
    unfolding hash_pattern_def using len
    by (intro list_all2_append) (simp add: codepoints_def)
  then show ?thesis
    using len by (simp add: all2_Lit all2_Class is_token_def)
qed

lemma match_here_token: "match_here hash_pattern s \<longleftrightarrow> is_token (take 13 s)"
proof (cases "13 \<le> length s")
  case True
  then show ?thesis
    using all2_hash_pattern [of "take 13 s"] by (simp add: match_here_iff length_hash_pattern)
next
  case False
  then show ?thesis by (simp add: match_here_iff length_hash_pattern is_token_def)
qed

section \<open>The scan\<close>

lemma substitute_Nil: "substitute tbl [] = []"
  by (simp add: substitute_def)

lemma token_at_length: "token_at s j \<Longrightarrow> j + 13 \<le> length s"
  by (auto simp: token_at_def is_token_def)

lemma token_at_Suc: "token_at (c # cs) (Suc j) = token_at cs j"
  by (simp add: token_at_def)

lemma token_at_drop: "token_at (drop k s) j = token_at s (j + k)"
  by (simp add: token_at_def add.commute)

lemma token_at_append: "j + 13 \<le> length pre \<Longrightarrow> token_at (pre @ rest) j = token_at pre j"
  by (simp add: token_at_def)

lemma substitute_match:
  assumes "token_at s 0"
  shows "substitute tbl s = lookup_or_keep tbl (take 13 s) @ substitute tbl (drop 13 s)"
proof -
  from assms have "13 \<le> length s" using token_at_length by fastforce
  then obtain c cs where s: "s = c # cs" by (cases s) auto
  from assms have "match_here hash_pattern (c # cs)"
    by (simp add: match_here_token token_at_def s)
  then show ?thesis
    unfolding substitute_def s
    by (simp add: re_sub.simps(2) hash_pattern_ne length_hash_pattern)
qed

lemma substitute_no_match:
  assumes "\<not> token_at (c # cs) 0"
  shows "substitute tbl (c # cs) = c # substitute tbl cs"
proof -
  from assms have "\<not> match_here hash_pattern (c # cs)"
    by (simp add: match_here_token token_at_def)
  then show ?thesis
    unfolding substitute_def by (simp add: re_sub.simps(2))
qed

lemma substitute_skip:
  "(\<forall>j<n. \<not> token_at s j) \<Longrightarrow> n \<le> length s \<Longrightarrow>
   substitute tbl s = take n s @ substitute tbl (drop n s)"
proof (induction n arbitrary: s)
  case 0
  then show ?case by simp
next
  case (Suc n)
  then obtain c cs where s: "s = c # cs" by (cases s) auto
  from Suc.prems have no0: "\<not> token_at (c # cs) 0" by (auto simp: s)
  have "\<forall>j<n. \<not> token_at cs j"
  proof (intro allI impI)
    fix j assume "j < n"
    then have "\<not> token_at s (Suc j)" using Suc.prems by simp
    then show "\<not> token_at cs j" by (simp add: s token_at_Suc)
  qed
  moreover have "n \<le> length cs" using Suc.prems by (simp add: s)
  ultimately have "substitute tbl cs = take n cs @ substitute tbl (drop n cs)"
    by (rule Suc.IH)
  then show ?case by (simp add: s substitute_no_match [OF no0])
qed

lemma substitute_append:
  "(\<forall>j<length pre. token_at (pre @ rest) j \<longrightarrow> j + 13 \<le> length pre) \<Longrightarrow>
   substitute tbl (pre @ rest) = substitute tbl pre @ substitute tbl rest"
proof (induction "length pre" arbitrary: pre rule: less_induct)
  case less
  show ?case
  proof (cases pre)
    case Nil
    then show ?thesis by (simp add: substitute_Nil)
  next
    case (Cons c cs)
    show ?thesis
    proof (cases "token_at (pre @ rest) 0")
      case True
      with less.prems have len: "13 \<le> length pre" by (auto simp: Cons)
      then have here: "token_at pre 0" using True token_at_append [of 0 pre rest] by simp
      have shorter: "length (drop 13 pre) < length pre" using len by simp
      have "\<forall>j<length (drop 13 pre).
              token_at (drop 13 pre @ rest) j \<longrightarrow> j + 13 \<le> length (drop 13 pre)"
      proof (intro allI impI)
        fix j assume j: "j < length (drop 13 pre)" and t: "token_at (drop 13 pre @ rest) j"
        have eq: "drop 13 (pre @ rest) = drop 13 pre @ rest" using len by simp
        have "token_at (drop 13 (pre @ rest)) j" using t by (simp only: eq)
        then have "token_at (pre @ rest) (j + 13)" by (simp only: token_at_drop)
        moreover have "j + 13 < length pre" using j by simp
        ultimately have "j + 13 + 13 \<le> length pre" using less.prems by blast
        then show "j + 13 \<le> length (drop 13 pre)" by simp
      qed
      then have ih: "substitute tbl (drop 13 pre @ rest)
          = substitute tbl (drop 13 pre) @ substitute tbl rest"
        using less.hyps [OF shorter] by blast
      have "substitute tbl (pre @ rest)
          = lookup_or_keep tbl (take 13 pre) @ substitute tbl (drop 13 pre @ rest)"
        using substitute_match [OF True, of tbl] len by simp
      also have "\<dots> = substitute tbl pre @ substitute tbl rest"
        using substitute_match [OF here, of tbl] ih by simp
      finally show ?thesis .
    next
      case False
      have nohere: "\<not> token_at pre 0"
      proof
        assume t: "token_at pre 0"
        then have "13 \<le> length pre" using token_at_length by fastforce
        then have "token_at (pre @ rest) 0" using t token_at_append [of 0 pre rest] by simp
        with False show False by simp
      qed
      have "\<forall>j<length cs. token_at (cs @ rest) j \<longrightarrow> j + 13 \<le> length cs"
      proof (intro allI impI)
        fix j assume j: "j < length cs" and t: "token_at (cs @ rest) j"
        then have "token_at (pre @ rest) (Suc j)" by (simp add: Cons token_at_Suc)
        moreover have "Suc j < length pre" using j by (simp add: Cons)
        ultimately have "Suc j + 13 \<le> length pre" using less.prems by blast
        then show "j + 13 \<le> length cs" by (simp add: Cons)
      qed
      then have ih: "substitute tbl (cs @ rest) = substitute tbl cs @ substitute tbl rest"
        using less.hyps [of cs] by (simp add: Cons)
      from False have f1: "\<not> token_at (c # (cs @ rest)) 0" by (simp add: Cons)
      from nohere have f2: "\<not> token_at (c # cs) 0" by (simp add: Cons)
      show ?thesis
        using substitute_no_match [OF f1, of tbl] substitute_no_match [OF f2, of tbl] ih
        by (simp add: Cons)
    qed
  qed
qed

lemma not_hex_h: "\<not> is_hexdigit 104"
  by (simp add: is_hexdigit_def)

lemma token_nth:
  assumes "token_at s j" and "k < 13"
  shows "take 13 (drop j s) ! k = s ! (j + k)"
proof -
  from assms(1) have "j + 13 \<le> length s" by (rule token_at_length)
  with assms(2) show ?thesis by simp
qed

lemma is_token_chars:
  assumes "is_token t"
  shows "t ! 0 = 104 \<and> t ! 1 = 97 \<and> t ! 2 = 115 \<and> t ! 3 = 104 \<and> t ! 4 = 95 \<and>
         (\<forall>k. 5 \<le> k \<and> k < 13 \<longrightarrow> is_hexdigit (t ! k))"
proof -
  from assms have len: "length t = 13" and pre: "take 5 t = [104, 97, 115, 104, 95]"
    and hex: "list_all is_hexdigit (drop 5 t)"
    by (simp_all add: is_token_def codepoints_def)
  have low: "\<And>k. k < 5 \<Longrightarrow> t ! k = [104, 97, 115, 104, 95] ! k"
  proof -
    fix k :: nat assume "k < 5"
    then have "take 5 t ! k = t ! k" by simp
    then show "t ! k = [104, 97, 115, 104, 95] ! k" by (simp add: pre)
  qed
  have high: "\<And>k. 5 \<le> k \<Longrightarrow> k < 13 \<Longrightarrow> is_hexdigit (t ! k)"
  proof -
    fix k :: nat assume k5: "5 \<le> k" and k13: "k < 13"
    then have "k - 5 < length (drop 5 t)" using len by simp
    with hex have "is_hexdigit (drop 5 t ! (k - 5))" by (simp add: list_all_length)
    moreover have "drop 5 t ! (k - 5) = t ! k" using k5 k13 len by simp
    ultimately show "is_hexdigit (t ! k)" by simp
  qed
  from low [of 0] low [of 1] low [of 2] low [of 3] low [of 4] high show ?thesis by simp
qed

lemma token_at_chars:
  assumes "token_at s j"
  shows "s ! j = 104 \<and> s ! (j + 1) = 97 \<and> s ! (j + 2) = 115 \<and> s ! (j + 3) = 104 \<and>
         s ! (j + 4) = 95 \<and> (\<forall>k. 5 \<le> k \<and> k < 13 \<longrightarrow> is_hexdigit (s ! (j + k)))"
proof -
  from assms have "is_token (take 13 (drop j s))" by (simp add: token_at_def)
  note c = is_token_chars [OF this]
  note n = token_nth [OF assms]
  have "\<forall>k. 5 \<le> k \<and> k < 13 \<longrightarrow> is_hexdigit (s ! (j + k))"
  proof (intro allI impI)
    fix k :: nat assume k: "5 \<le> k \<and> k < 13"
    with c have "is_hexdigit (take 13 (drop j s) ! k)" by blast
    with n [of k] k show "is_hexdigit (s ! (j + k))" by simp
  qed
  with c n [of 0] n [of 1] n [of 2] n [of 3] n [of 4] show ?thesis by simp
qed

lemma boundary_clear:
  assumes x: "\<not> is_hexdigit x" "x \<noteq> 115" "x \<noteq> 95"
    and y: "after = [] \<or> hd after \<noteq> 95"
  shows "\<forall>j<length pre. token_at (pre @ x # after) j \<longrightarrow> j + 13 \<le> length pre"
proof (intro allI impI)
  fix j assume j: "j < length pre" and t: "token_at (pre @ x # after) j"
  let ?s = "pre @ x # after"
  note c = token_at_chars [OF t]
  have len: "j + 13 \<le> length ?s" using t by (rule token_at_length)
  show "j + 13 \<le> length pre"
  proof (rule ccontr)
    assume "\<not> j + 13 \<le> length pre"
    then obtain d where d: "length pre = j + d" "0 < d" "d < 13"
      using j by (metis add_diff_inverse_nat less_imp_le_nat nat_add_left_cancel_less
          not_le zero_less_diff nat_less_le)
    have at: "?s ! (j + d) = x" using d(1) by (metis nth_append_length)
    have hex97: "is_hexdigit 97" by (simp add: is_hexdigit_def)
    consider "d = 1" | "d = 2" | "d = 3" | "d = 4" | "5 \<le> d" using d(2) by linarith
    then show False
    proof cases
      case 1
      with c at have "x = 97" by simp
      with x(1) hex97 show False by simp
    next
      case 2
      with c at have "x = 115" by simp
      with x(2) show False by simp
    next
      case 3
      have "after \<noteq> []" using len d(1) 3 by auto
      then have "?s ! (j + 4) = hd after"
        using d(1) 3 by (simp add: nth_append hd_conv_nth)
      with c have "hd after = 95" by simp
      with y \<open>after \<noteq> []\<close> show False by simp
    next
      case 4
      with c at have "x = 95" by simp
      with x(3) show False by simp
    next
      case 5
      with c d(3) have "is_hexdigit (?s ! (j + d))" by blast
      with at x(1) show False by simp
    qed
  qed
qed

lemma token_in_context:
  assumes "is_token tok"
  shows "substitute tbl (pre @ tok @ post)
       = substitute tbl pre @ lookup_or_keep tbl tok @ substitute tbl post"
proof -
  from assms have len: "length tok = 13" by (simp add: is_token_def)
  from is_token_chars [OF assms] len obtain after where tok: "tok = 104 # after" "hd after = 97" "after \<noteq> []"
    by (cases tok; cases "tl tok") auto
  have "\<forall>j<length pre. token_at (pre @ 104 # (after @ post)) j \<longrightarrow> j + 13 \<le> length pre"
    by (rule boundary_clear) (use tok in \<open>simp_all add: not_hex_h\<close>)
  then have "substitute tbl (pre @ tok @ post) = substitute tbl pre @ substitute tbl (tok @ post)"
    using substitute_append [of pre "tok @ post" tbl] by (simp add: tok)
  moreover have "token_at (tok @ post) 0" using assms len by (simp add: token_at_def)
  then have "substitute tbl (tok @ post) = lookup_or_keep tbl tok @ substitute tbl post"
    using substitute_match [of "tok @ post" tbl] len by simp
  ultimately show ?thesis by simp
qed

lemma contains_token_iff: "contains_token s \<longleftrightarrow> (\<exists>j<length s. token_at s j)"
  by (auto simp: contains_token_def list_ex_iff)

lemma substitute_without_token:
  assumes "\<not> contains_token s"
  shows "substitute tbl s = s"
proof -
  from assms have "\<forall>j<length s. \<not> token_at s j" by (simp add: contains_token_iff)
  from substitute_skip [OF this, of tbl] show ?thesis by (simp add: substitute_Nil)
qed

lemma scanned_substitute:
  "scanned segs \<Longrightarrow>
   substitute tbl (concat (map source_text segs)) = concat (map (replaced tbl) segs)"
proof (induction segs rule: scanned.induct)
  case 1
  then show ?case by (simp add: substitute_Nil)
next
  case (2 s segs)
  let ?rest = "concat (map source_text segs)"
  from "2.prems" have none: "\<forall>j<length s. \<not> token_at (s @ ?rest) j"
    by (simp add: list_all_iff)
  from "2.prems" have "scanned segs" by simp
  then have ih: "substitute tbl ?rest = concat (map (replaced tbl) segs)" by (rule "2.IH")
  from substitute_skip [OF none, of tbl] have "substitute tbl (s @ ?rest) = s @ substitute tbl ?rest"
    by simp
  with ih show ?case by simp
next
  case (3 t segs)
  let ?rest = "concat (map source_text segs)"
  from "3.prems" have tok: "is_token t" and "scanned segs" by simp_all
  then have ih: "substitute tbl ?rest = concat (map (replaced tbl) segs)" using "3.IH" by blast
  from token_in_context [OF tok, of tbl "[]" ?rest] ih
  show ?case by (simp add: substitute_Nil lookup_or_keep_def)
qed

lemma exists_scanned: "\<exists>segs. scanned segs \<and> concat (map source_text segs) = s"
proof (induction "length s" arbitrary: s rule: less_induct)
  case less
  show ?case
  proof (cases s)
    case Nil
    have "scanned [] \<and> concat (map source_text []) = s" by (simp add: Nil)
    then show ?thesis by blast
  next
    case (Cons c cs)
    show ?thesis
    proof (cases "token_at s 0")
      case True
      then have len: "13 \<le> length s" using token_at_length by fastforce
      then have "length (drop 13 s) < length s" by (simp add: Cons)
      from less.hyps [OF this] obtain segs where
        segs: "scanned segs" "concat (map source_text segs) = drop 13 s" by blast
      from True have "is_token (take 13 s)" by (simp add: token_at_def)
      with segs have "scanned (Token (take 13 s) # segs)
          \<and> concat (map source_text (Token (take 13 s) # segs)) = s" by simp
      then show ?thesis by blast
    next
      case False
      have "length cs < length s" by (simp add: Cons)
      from less.hyps [OF this] obtain segs where
        segs: "scanned segs" "concat (map source_text segs) = cs" by blast
      with False have "scanned (Plain [c] # segs)
          \<and> concat (map source_text (Plain [c] # segs)) = s" by (simp add: Cons)
      then show ?thesis by blast
    qed
  qed
qed

section \<open>The table\<close>

lemma load_lookup:
  "load_nametable_lines lower t lines k =
     (if [l \<leftarrow> map strip lines. l \<noteq> [] \<and> joaat_hash lower l = k] = [] then t k
      else Some (last [l \<leftarrow> map strip lines. l \<noteq> [] \<and> joaat_hash lower l = k]))"
  by (induction lines arbitrary: t) auto

lemma load_last_wins:
  assumes "lines = before @ line # later" and "strip line \<noteq> []"
    and "\<forall>l\<in>set later. strip l \<noteq> [] \<longrightarrow>
           joaat_hash lower (strip l) \<noteq> joaat_hash lower (strip line)"
  shows "load_nametable_lines lower t lines (joaat_hash lower (strip line)) = Some (strip line)"
proof -
  let ?k = "joaat_hash lower (strip line)"
  let ?P = "\<lambda>l. l \<noteq> [] \<and> joaat_hash lower l = ?k"
  have "[l \<leftarrow> map strip later. ?P l] = []"
    using assms(3) by (auto simp: filter_empty_conv)
  then have "[l \<leftarrow> map strip lines. ?P l] = [l \<leftarrow> map strip before. ?P l] @ [strip line]"
    using assms(1,2) by simp
  then show ?thesis by (simp add: load_lookup)
qed

lemma load_dom:
  "dom (load_nametable_lines lower Map.empty lines)
     = {joaat_hash lower (strip l) | l. l \<in> set lines \<and> strip l \<noteq> []}"
proof -
  have "\<And>k. (load_nametable_lines lower Map.empty lines k \<noteq> None)
      = (\<exists>l. k = joaat_hash lower (strip l) \<and> l \<in> set lines \<and> strip l \<noteq> [])"
    by (auto simp: load_lookup filter_empty_conv)
  then show ?thesis by (auto simp: dom_def)
qed

lemma load_key:
  assumes "load_nametable_lines lower Map.empty lines k = Some v"
  shows "k = joaat_hash lower v"
proof -
  let ?ls = "[l \<leftarrow> map strip lines. l \<noteq> [] \<and> joaat_hash lower l = k]"
  from assms have ne: "?ls \<noteq> []" and v: "v = last ?ls"
    by (auto simp: load_lookup split: if_splits)
  from ne have "last ?ls \<in> set ?ls" by (rule last_in_set)
  with v show ?thesis by simp
qed

lemma upper_is_hexdigit: "is_upper_hex c \<Longrightarrow> is_hexdigit c"
  by (auto simp: is_upper_hex_def is_hexdigit_def)

lemma joaat_hash_is_token: "is_token (joaat_hash lower s)"
proof -
  have "list_all is_hexdigit (spec_hex8 (one_at_a_time (lower s)))"
    using spec_hex8_shape [of "one_at_a_time (lower s)"]
    by (auto simp: list_all_iff upper_is_hexdigit)
  then show ?thesis
    using spec_hex8_shape [of "one_at_a_time (lower s)"]
    by (simp add: is_token_def joaat_hash_word codepoints_def)
qed

lemma joaat_hash_no_lower_hex: "\<not> has_lower_hex (joaat_hash lower s)"
proof -
  have "drop 5 (joaat_hash lower s) = spec_hex8 (one_at_a_time (lower s))"
    by (simp add: joaat_hash_word codepoints_def)
  moreover have "\<forall>c\<in>set (spec_hex8 (one_at_a_time (lower s))). \<not> (97 \<le> c \<and> c \<le> 102)"
    using spec_hex8_shape [of "one_at_a_time (lower s)"]
    by (auto simp: list_all_iff is_upper_hex_def)
  ultimately show ?thesis by (simp add: has_lower_hex_def list_ex_iff)
qed

lemma lower_hex_not_key:
  assumes "has_lower_hex tok"
  shows "load_nametable_lines lower Map.empty lines tok = None"
proof (cases "load_nametable_lines lower Map.empty lines tok")
  case None
  then show ?thesis .
next
  case (Some v)
  then have "tok = joaat_hash lower v" by (rule load_key)
  with assms joaat_hash_no_lower_hex [of lower v] show ?thesis by simp
qed

lemma substitute_token:
  assumes "is_token tok"
  shows "substitute tbl tok = lookup_or_keep tbl tok"
  using token_in_context [OF assms, of tbl "[]" "[]"] by (simp add: substitute_Nil)


lemmas text_eval = codepoints_def strip_def isspace_def

section \<open>Near-matches\<close>

lemma no_token_unless_ha: "s ! j \<noteq> 104 \<or> s ! Suc j \<noteq> 97 \<Longrightarrow> \<not> token_at s j"
  using token_at_chars [of s j] by auto

lemma block_kept:
  assumes head: "occ = x # y # occ'" "\<not> is_hexdigit x" "x \<noteq> 115" "x \<noteq> 95" "y \<noteq> 95"
    and none: "\<forall>j<length occ. \<not> token_at (occ @ post) j"
  shows "substitute tbl (pre @ occ @ post) = substitute tbl pre @ occ @ substitute tbl post"
proof -
  have "\<forall>j<length pre. token_at (pre @ x # (y # occ' @ post)) j \<longrightarrow> j + 13 \<le> length pre"
    by (rule boundary_clear) (use head in simp_all)
  then have "substitute tbl (pre @ occ @ post)
      = substitute tbl pre @ substitute tbl (occ @ post)"
    using substitute_append [of pre "occ @ post" tbl] by (simp add: head(1))
  moreover have "substitute tbl (occ @ post) = occ @ substitute tbl post"
    using substitute_skip [OF none, of tbl] by simp
  ultimately show ?thesis by simp
qed

lemma short_token_kept:
  assumes hex: "list_all is_hexdigit ds" and short: "length ds < 8"
    and stop: "post = [] \<or> \<not> is_hexdigit (hd post)"
  shows "substitute tbl (pre @ (codepoints ''hash_'' @ ds) @ post)
       = substitute tbl pre @ (codepoints ''hash_'' @ ds) @ substitute tbl post"
proof (rule block_kept)
  let ?occ = "codepoints ''hash_'' @ ds"
  let ?s = "?occ @ post"
  show "?occ = 104 # 97 # ([115, 104, 95] @ ds)" by (simp add: codepoints_def)
  show "\<not> is_hexdigit 104" by (rule not_hex_h)
  show "(104::nat) \<noteq> 115" "(104::nat) \<noteq> 95" "(97::nat) \<noteq> 95" by simp_all
  show "\<forall>j<length ?occ. \<not> token_at ?s j"
  proof (intro allI impI)
    fix j assume j: "j < length ?occ"
    consider "j = 0" | "j = 1" | "j = 2" | "j = 3" | "j = 4" | "5 \<le> j" by linarith
    then show "\<not> token_at ?s j"
    proof cases
      case 1
      show ?thesis
      proof
        assume t: "token_at ?s j"
        from token_at_length [OF t] 1 have len: "13 \<le> length ?s" by simp
        with short have pne: "post \<noteq> []" by (auto simp: codepoints_def)
        have "5 \<le> 5 + length ds \<and> 5 + length ds < 13" using short by simp
        with token_at_chars [OF t] 1 have "is_hexdigit (?s ! (5 + length ds))" by simp
        moreover have "?s ! (5 + length ds) = hd post"
          using pne by (simp add: codepoints_def nth_append hd_conv_nth)
        ultimately show False using stop pne by simp
      qed
    next
      case 2
      then show ?thesis by (intro no_token_unless_ha) (simp add: codepoints_def)
    next
      case 3
      then show ?thesis by (intro no_token_unless_ha) (simp add: codepoints_def)
    next
      case 4
      then show ?thesis by (intro no_token_unless_ha) (simp add: codepoints_def)
    next
      case 5
      then show ?thesis by (intro no_token_unless_ha) (simp add: codepoints_def)
    next
      case 6
      with j have "j - 5 < length ds" by (simp add: codepoints_def)
      with hex have "is_hexdigit (ds ! (j - 5))" by (simp add: list_all_length)
      moreover have "length (codepoints ''hash_'') = 5" by (simp add: codepoints_def)
      then have "?s ! j = ds ! (j - 5)" using 6 \<open>j - 5 < length ds\<close> by (simp add: nth_append)
      ultimately have "?s ! j \<noteq> 104" using not_hex_h by auto
      then show ?thesis by (intro no_token_unless_ha) simp
    qed
  qed
qed

lemma wrong_case_kept:
  assumes low: "ascii_lower tag = codepoints ''hash_''" and diff: "tag \<noteq> codepoints ''hash_''"
    and hex: "list_all is_hexdigit ds"
  shows "substitute tbl (pre @ (tag @ ds) @ post)
       = substitute tbl pre @ (tag @ ds) @ substitute tbl post"
proof -
  from low have "length (ascii_lower tag) = 5" by (simp add: codepoints_def)
  then have "length tag = Suc (Suc (Suc (Suc (Suc 0))))" by (simp add: ascii_lower_def)
  then obtain t0 t1 t2 t3 t4 where tag: "tag = [t0, t1, t2, t3, t4]"
    by (auto simp: length_Suc_conv)
  from low have c0: "t0 = 104 \<or> t0 = 72" and c1: "t1 = 97 \<or> t1 = 65"
    and c2: "t2 = 115 \<or> t2 = 83" and c3: "t3 = 104 \<or> t3 = 72" and c4: "t4 = 95"
    by (auto simp: tag ascii_lower_def codepoints_def split: if_splits)
  have nh: "\<not> is_hexdigit t0" using c0 by (auto simp: is_hexdigit_def)
  show ?thesis
  proof (rule block_kept)
    let ?s = "(tag @ ds) @ post"
    show "tag @ ds = t0 # t1 # ([t2, t3, t4] @ ds)" by (simp add: tag)
    show "\<not> is_hexdigit t0" by (rule nh)
    show "t0 \<noteq> 115" "t0 \<noteq> 95" using c0 by auto
    show "t1 \<noteq> 95" using c1 by auto
    show "\<forall>j<length (tag @ ds). \<not> token_at ?s j"
    proof (intro allI impI)
      fix j assume j: "j < length (tag @ ds)"
      consider "j = 0" | "j = 1" | "j = 2" | "j = 3" | "j = 4" | "5 \<le> j" by linarith
      then show "\<not> token_at ?s j"
      proof cases
        case 1
        show ?thesis
        proof
          assume "token_at ?s j"
          from token_at_chars [OF this] 1 have "tag = [104, 97, 115, 104, 95]"
            by (simp add: tag)
          with diff show False by (simp add: codepoints_def)
        qed
      next
        case 2
        then show ?thesis using c1 by (intro no_token_unless_ha) (auto simp: tag)
      next
        case 3
        then show ?thesis using c2 by (intro no_token_unless_ha) (auto simp: tag)
      next
        case 4
        then show ?thesis using c4 by (intro no_token_unless_ha) (auto simp: tag)
      next
        case 5
        then show ?thesis using c4 by (intro no_token_unless_ha) (auto simp: tag)
      next
        case 6
        with j have "j - 5 < length ds" by (simp add: tag)
        with hex have "is_hexdigit (ds ! (j - 5))" by (simp add: list_all_length)
        moreover have "length tag = 5" by (simp add: tag)
        then have "?s ! j = ds ! (j - 5)" using 6 \<open>j - 5 < length ds\<close> by (simp add: nth_append)
        ultimately have "?s ! j \<noteq> 104" using not_hex_h by auto
        then show ?thesis by (intro no_token_unless_ha) simp
      qed
    qed
  qed
qed


lemma substitute_short: "length s < 13 \<Longrightarrow> substitute tbl s = s"
proof (rule substitute_without_token)
  assume "length s < 13"
  then have "\<forall>j<length s. \<not> token_at s j" using token_at_length [of s] by fastforce
  then show "\<not> contains_token s" by (simp add: contains_token_iff)
qed

section \<open>Files and the batch\<close>

lemma read_text_other: "q \<noteq> p \<Longrightarrow> snd (read_text p fs) q = fs q"
  by (simp add: read_text_def split: option.splits)

lemma write_text_other: "q \<noteq> p \<Longrightarrow> snd (write_text p s fs) q = fs q"
  by (simp add: write_text_def split: option.splits)

lemma read_text_keeps:
  "map_option decoded (snd (read_text p fs) q) = map_option decoded (fs q) \<and>
   map_option writes (snd (read_text p fs) q) = map_option writes (fs q)"
  by (simp add: read_text_def split: option.splits)

lemma process_xml_file_cases:
  "process_xml_file tbl p fs =
     (case fs p of
        None \<Rightarrow> (Inl FileNotFoundError, fs)
      | Some f \<Rightarrow>
          if \<not> readable f then (Inl PermissionError, fs)
          else (case decoded f of
                  None \<Rightarrow> (Inl UnicodeDecodeError, fs(p \<mapsto> f\<lparr>reads := Suc (reads f)\<rparr>))
                | Some content \<Rightarrow>
                    if substitute tbl content = content
                    then (Inr (), fs(p \<mapsto> f\<lparr>reads := Suc (reads f)\<rparr>))
                    else if writable f
                    then (Inr (), fs(p \<mapsto> f\<lparr>reads := Suc (reads f),
                                   decoded := Some (substitute tbl content), writes := Suc (writes f)\<rparr>))
                    else (Inl PermissionError, fs(p \<mapsto> f\<lparr>reads := Suc (reads f)\<rparr>))))"
  by (simp add: process_xml_file_def read_text_def write_text_def apply_substitution_def Let_def
      split: option.splits)

lemma process_other: "q \<noteq> p \<Longrightarrow> snd (process_xml_file tbl p fs) q = fs q"
  by (simp add: process_xml_file_cases split: option.splits)

lemma process_local:
  "fs1 p = fs2 p \<Longrightarrow>
   fst (process_xml_file tbl p fs1) = fst (process_xml_file tbl p fs2) \<and>
   snd (process_xml_file tbl p fs1) p = snd (process_xml_file tbl p fs2) p"
  by (simp add: process_xml_file_cases split: option.splits)

lemma load_nametable_fail:
  "fst (read_text p fs) = Inl e \<Longrightarrow>
   load_nametable lower p fs = (Inl e, snd (read_text p fs))"
  by (cases "read_text p fs") (auto simp: load_nametable_def)


lemma started_files_subset: "set (started_files started j ps) \<subseteq> set ps"
  by (induction ps arbitrary: j) auto

lemma process_is_after: "snd (process_xml_file tbl p fs) = after_tasks tbl {p} fs"
  by (rule ext) (simp add: after_tasks_def process_other)

lemma after_tasks_compose:
  assumes "S \<inter> T = {}"
  shows "after_tasks tbl T (after_tasks tbl S fs) = after_tasks tbl (S \<union> T) fs"
proof (rule ext)
  fix q
  show "after_tasks tbl T (after_tasks tbl S fs) q = after_tasks tbl (S \<union> T) fs q"
  proof (cases "q \<in> T")
    case True
    with assms have "q \<notin> S" by auto
    then have "after_tasks tbl S fs q = fs q" by (simp add: after_tasks_def)
    from process_local [of "after_tasks tbl S fs" q fs tbl, OF this] True
    show ?thesis by (simp add: after_tasks_def)
  next
    case False
    then show ?thesis by (simp add: after_tasks_def)
  qed
qed

lemma result_after_tasks:
  "p \<notin> S \<Longrightarrow> fst (process_xml_file tbl p (after_tasks tbl S fs)) = fst (process_xml_file tbl p fs)"
  using process_local [of "after_tasks tbl S fs" p fs tbl] by (simp add: after_tasks_def)

lemma run_tasks_raised:
  "distinct ps \<Longrightarrow>
   run_tasks tbl started j ps (Some e) fs
     = (Inl e, after_tasks tbl (set (started_files started j ps)) fs)"
proof (induction ps arbitrary: j fs)
  case Nil
  show ?case by (simp add: after_tasks_def)
next
  case (Cons p ps)
  then have d: "distinct ps" and notin: "p \<notin> set ps" by simp_all
  have disj: "{p} \<inter> set (started_files started (Suc j) ps) = {}"
    using notin started_files_subset [of started "Suc j" ps] by auto
  show ?case
  proof (cases "started j")
    case True
    have "run_tasks tbl started j (p # ps) (Some e) fs
        = run_tasks tbl started (Suc j) ps (Some e) (after_tasks tbl {p} fs)"
      using True by (simp add: process_is_after)
    also have "\<dots> = (Inl e, after_tasks tbl (set (started_files started (Suc j) ps))
        (after_tasks tbl {p} fs))"
      by (rule Cons.IH [OF d])
    finally show ?thesis using True by (simp add: after_tasks_compose [OF disj])
  next
    case False
    then show ?thesis using Cons.IH [OF d, of "Suc j" fs] by simp
  qed
qed

lemma run_tasks_step_ok:
  assumes "fst (process_xml_file tbl p fs) = Inr ()"
  shows "run_tasks tbl started j (p # ps) None fs
       = run_tasks tbl started (Suc j) ps None (after_tasks tbl {p} fs)"
proof -
  obtain r fs1 where pr: "process_xml_file tbl p fs = (r, fs1)" by (cases "process_xml_file tbl p fs")
  with assms have "r = Inr ()" by simp
  moreover from pr have "fs1 = after_tasks tbl {p} fs" using process_is_after [of tbl p fs] by simp
  ultimately show ?thesis using pr by simp
qed

lemma run_tasks_step_fail:
  assumes "fst (process_xml_file tbl p fs) = Inl e"
  shows "run_tasks tbl started j (p # ps) None fs
       = run_tasks tbl started (Suc j) ps (Some e) (after_tasks tbl {p} fs)"
proof -
  obtain r fs1 where pr: "process_xml_file tbl p fs = (r, fs1)" by (cases "process_xml_file tbl p fs")
  with assms have "r = Inl e" by simp
  moreover from pr have "fs1 = after_tasks tbl {p} fs" using process_is_after [of tbl p fs] by simp
  ultimately show ?thesis using pr by simp
qed

lemma run_tasks_all_ok:
  "distinct ps \<Longrightarrow> \<forall>p\<in>set ps. fst (process_xml_file tbl p fs) = Inr () \<Longrightarrow>
   run_tasks tbl started j ps None fs = (Inr (), after_tasks tbl (set ps) fs)"
proof (induction ps arbitrary: j fs)
  case Nil
  show ?case by (simp add: after_tasks_def)
next
  case (Cons p ps)
  then have d: "distinct ps" and notin: "p \<notin> set ps" by simp_all
  have ok: "fst (process_xml_file tbl p fs) = Inr ()" using Cons.prems by simp
  have "\<forall>q\<in>set ps. fst (process_xml_file tbl q (after_tasks tbl {p} fs)) = Inr ()"
  proof
    fix q assume q: "q \<in> set ps"
    with notin have "q \<notin> {p}" by auto
    from result_after_tasks [OF this, of tbl fs] q Cons.prems(2)
    show "fst (process_xml_file tbl q (after_tasks tbl {p} fs)) = Inr ()" by simp
  qed
  from Cons.IH [OF d this, of "Suc j"]
  have ih: "run_tasks tbl started (Suc j) ps None (after_tasks tbl {p} fs)
      = (Inr (), after_tasks tbl (set ps) (after_tasks tbl {p} fs))" .
  have disj: "{p} \<inter> set ps = {}" using notin by simp
  have "run_tasks tbl started j (p # ps) None fs
      = run_tasks tbl started (Suc j) ps None (after_tasks tbl {p} fs)"
    by (rule run_tasks_step_ok [OF ok])
  also have "\<dots> = (Inr (), after_tasks tbl ({p} \<union> set ps) fs)"
    by (simp only: ih after_tasks_compose [OF disj])
  finally show ?case by simp
qed

lemma run_tasks_first_failure:
  "distinct (before @ bad # later) \<Longrightarrow>
   \<forall>p\<in>set before. fst (process_xml_file tbl p fs) = Inr () \<Longrightarrow>
   fst (process_xml_file tbl bad fs) = Inl e \<Longrightarrow>
   run_tasks tbl started j (before @ bad # later) None fs
     = (Inl e, after_tasks tbl
          (set before \<union> {bad} \<union> set (started_files started (Suc (j + length before)) later)) fs)"
proof (induction before arbitrary: j fs)
  case Nil
  then have d: "distinct later" and notin: "bad \<notin> set later" by simp_all
  have disj: "{bad} \<inter> set (started_files started (Suc j) later) = {}"
    using notin started_files_subset [of started "Suc j" later] by auto
  have "run_tasks tbl started j (bad # later) None fs
      = run_tasks tbl started (Suc j) later (Some e) (after_tasks tbl {bad} fs)"
    by (rule run_tasks_step_fail [OF Nil.prems(3)])
  also have "\<dots> = (Inl e, after_tasks tbl ({bad} \<union> set (started_files started (Suc j) later)) fs)"
    by (simp only: run_tasks_raised [OF d] after_tasks_compose [OF disj])
  finally show ?case by simp
next
  case (Cons b before)
  then have d: "distinct (before @ bad # later)" and notin: "b \<notin> set (before @ bad # later)"
    by simp_all
  have ok: "fst (process_xml_file tbl b fs) = Inr ()" using Cons.prems by simp
  have oks: "\<forall>q\<in>set before. fst (process_xml_file tbl q (after_tasks tbl {b} fs)) = Inr ()"
  proof
    fix q assume q: "q \<in> set before"
    with notin have "q \<notin> {b}" by auto
    from result_after_tasks [OF this, of tbl fs] q Cons.prems(2)
    show "fst (process_xml_file tbl q (after_tasks tbl {b} fs)) = Inr ()" by simp
  qed
  have "bad \<notin> {b}" using notin by auto
  from result_after_tasks [OF this, of tbl fs] Cons.prems(3)
  have bad: "fst (process_xml_file tbl bad (after_tasks tbl {b} fs)) = Inl e" by simp
  let ?S = "set before \<union> {bad} \<union> set (started_files started (Suc (Suc j + length before)) later)"
  from Cons.IH [OF d oks bad, of "Suc j"]
  have ih: "run_tasks tbl started (Suc j) (before @ bad # later) None (after_tasks tbl {b} fs)
      = (Inl e, after_tasks tbl ?S (after_tasks tbl {b} fs))" .
  have disj: "{b} \<inter> ?S = {}"
    using notin started_files_subset [of started "Suc (Suc j + length before)" later] by auto
  have sets: "{b} \<union> ?S = set (b # before) \<union> {bad}
      \<union> set (started_files started (Suc (j + length (b # before))) later)" by auto
  have "run_tasks tbl started j ((b # before) @ bad # later) None fs
      = run_tasks tbl started (Suc j) (before @ bad # later) None (after_tasks tbl {b} fs)"
    using run_tasks_step_ok [OF ok, of started j "before @ bad # later"] by simp
  also have "\<dots> = (Inl e, after_tasks tbl ({b} \<union> ?S) fs)"
    by (simp only: ih after_tasks_compose [OF disj])
  finally show ?case by (simp only: sets)
qed


section \<open>The example run\<close>

lemma example_substitute_b:
  "substitute example_table (codepoints ''<hash_CA2E9442>'') = codepoints ''<a>''"
proof -
  have tok: "is_token (codepoints ''hash_CA2E9442'')"
    by (simp add: is_token_def codepoints_def is_hexdigit_def)
  have pre: "substitute example_table (codepoints ''<'') = codepoints ''<''"
    by (rule substitute_short) (simp add: codepoints_def)
  have post: "substitute example_table (codepoints ''>'') = codepoints ''>''"
    by (rule substitute_short) (simp add: codepoints_def)
  have key: "lookup_or_keep example_table (codepoints ''hash_CA2E9442'') = codepoints ''a''"
    by (simp add: lookup_or_keep_def example_table_def)
  have "substitute example_table (codepoints ''<'' @ codepoints ''hash_CA2E9442'' @ codepoints ''>'')
      = codepoints ''<'' @ codepoints ''a'' @ codepoints ''>''"
    by (simp only: token_in_context [OF tok] pre post key)
  then show ?thesis by (simp add: codepoints_def)
qed

lemma example_substitute_c: "substitute example_table (codepoints ''<a>'') = codepoints ''<a>''"
  by (rule substitute_short) (simp add: codepoints_def)


lemma example_a: "process_xml_file tbl ''a.xml'' example_fs = (Inl FileNotFoundError, example_fs)"
  by (simp add: process_xml_file_cases example_fs_def)

lemma example_b:
  "process_xml_file example_table ''b.xml'' example_fs
     = (Inr (), example_fs(''b.xml'' \<mapsto> (plain_file (codepoints ''<a>''))\<lparr>reads := 1, writes := 1\<rparr>))"
proof -
  have neq: "codepoints ''<a>'' \<noteq> codepoints ''<hash_CA2E9442>''" by (simp add: codepoints_def)
  have b: "example_fs ''b.xml'' = Some (plain_file (codepoints ''<hash_CA2E9442>''))"
    by (simp add: example_fs_def)
  show ?thesis
    using neq by (simp add: process_xml_file_cases b example_substitute_b plain_file_def)
qed

lemma example_c:
  "process_xml_file example_table ''c.xml'' example_fs
     = (Inr (), example_fs(''c.xml'' \<mapsto> (plain_file (codepoints ''<a>''))\<lparr>reads := 1\<rparr>))"
proof -
  have c: "example_fs ''c.xml'' = Some (plain_file (codepoints ''<a>''))"
    by (simp add: example_fs_def)
  show ?thesis
    by (simp add: process_xml_file_cases c example_substitute_c plain_file_def)
qed

lemma process_files_head_fails:
  assumes "distinct (bad # later)" and "fst (process_xml_file tbl bad fs) = Inl e"
  shows "fst (process_files tbl (bad # later) started fs) = Inl e"
  using run_tasks_first_failure [of "[]" bad later tbl fs e started 0] assms
  by (simp add: process_files_def)

lemma example_load:
  "load_nametable ascii_lower ''names.txt'' example_fs
     = (Inr example_table,
        example_fs(''names.txt'' \<mapsto> (plain_file (codepoints ''a'' @ [10]))\<lparr>reads := 1\<rparr>))"
proof -
  have sa: "strip (codepoints ''a'' @ [10]) = codepoints ''a''" by (simp add: text_eval)
  have ha: "joaat_hash ascii_lower (codepoints ''a'') = codepoints ''hash_CA2E9442''"
    by (simp add: hash_eval)
  have ne: "codepoints ''a'' \<noteq> []" by (simp add: codepoints_def)
  have lines: "file_lines [] (codepoints ''a'' @ [10]) = [codepoints ''a'' @ [10]]"
    by (simp add: codepoints_def)
  have tbl: "load_nametable_lines ascii_lower Map.empty [codepoints ''a'' @ [10]] = example_table"
    using ne by (simp add: sa ha example_table_def)
  have n: "example_fs ''names.txt'' = Some (plain_file (codepoints ''a'' @ [10]))"
    by (simp add: example_fs_def)
  have tbl': "load_nametable_lines ascii_lower Map.empty (file_lines [] (codepoints ''a'' @ [10]))
      = example_table"
    by (simp only: lines tbl)
  show ?thesis
    by (simp add: load_nametable_def read_text_def n tbl' plain_file_def)
qed

section \<open>Trimming, and the run after loading\<close>

lemma dropWhile_all: "list_all P xs \<Longrightarrow> dropWhile P (xs @ ys) = dropWhile P ys"
  by (induction xs) simp_all

lemma dropWhile_head: "t \<noteq> [] \<Longrightarrow> \<not> P (hd t) \<Longrightarrow> dropWhile P t = t"
  by (cases t) simp_all

lemma strip_blank: "strip line = [] \<longleftrightarrow> list_all isspace line"
proof
  assume "strip line = []"
  then have "dropWhile isspace (rev (dropWhile isspace line)) = []" by (simp add: strip_def)
  then have all: "\<forall>c\<in>set (dropWhile isspace line). isspace c"
    by (simp add: dropWhile_eq_Nil_conv)
  have "dropWhile isspace line = []"
  proof (rule ccontr)
    assume ne: "dropWhile isspace line \<noteq> []"
    then have "\<not> isspace (hd (dropWhile isspace line))" by (rule hd_dropWhile)
    moreover have "hd (dropWhile isspace line) \<in> set (dropWhile isspace line)"
      using ne by simp
    ultimately show False using all by blast
  qed
  then show "list_all isspace line" by (simp add: dropWhile_eq_Nil_conv list_all_iff)
next
  assume "list_all isspace line"
  then have dw: "dropWhile isspace line = []" by (simp add: dropWhile_eq_Nil_conv list_all_iff)
  show "strip line = []" by (simp only: strip_def dw) simp
qed

lemma strip_unique:
  assumes "line = a @ t @ b" and "list_all isspace a" and "list_all isspace b"
    and "t \<noteq> []" and "\<not> isspace (hd t)" and "\<not> isspace (last t)"
  shows "strip line = t"
proof -
  have "dropWhile isspace line = dropWhile isspace (t @ b)"
    using assms(1,2) by (simp add: dropWhile_all)
  also have "\<dots> = t @ b" using assms(4,5) by (intro dropWhile_head) simp_all
  finally have "rev (dropWhile isspace line) = rev b @ rev t" by simp
  moreover have "list_all isspace (rev b)" using assms(3) by (simp add: list_all_iff)
  ultimately have "dropWhile isspace (rev (dropWhile isspace line)) = dropWhile isspace (rev t)"
    by (simp add: dropWhile_all)
  also have "\<dots> = rev t"
    using assms(4,6) by (intro dropWhile_head) (simp_all add: hd_rev)
  finally show ?thesis by (simp add: strip_def)
qed


lemma main_after_load:
  assumes "nametable_path \<noteq> []" and "xml_files \<noteq> []"
    and "load_nametable lower nametable_path fs0 = (Inr table, fs)"
    and "process_files table xml_files started fs = (r, fs')"
  shows "main lower nametable_path xml_files started fs0
       = (case r of Inl e \<Rightarrow> (Some (ShowError e), fs') | Inr u \<Rightarrow> (Some ShowInfo_Success, fs'))"
  using assms by (simp add: main_def split: sum.splits)


section \<open>Claims\<close>

text \<open>
  C1. For every input string, \<open>joaat_hash\<close> is the tag \<open>hash_\<close> followed by the
  32-bit one-at-a-time hash of the lower-cased string, rendered as exactly eight
  upper-case hexadecimal digits; the masking after every operation of the source is
  arithmetic on a 32-bit accumulator. Two strings with the same lower-cased form, which
  is what differing only in letter case means, have the same token.
\<close>

theorem joaat_hash_refines_one_at_a_time:
  "joaat_hash lower s = codepoints ''hash_'' @ spec_hex8 (one_at_a_time (lower s)) \<and>
   length (spec_hex8 (one_at_a_time (lower s))) = 8 \<and>
   list_all is_upper_hex (spec_hex8 (one_at_a_time (lower s))) \<and>
   (lower s = lower t \<longrightarrow> joaat_hash lower s = joaat_hash lower t)"
  by (simp add: joaat_hash_word spec_hex8_shape)

theorem joaat_hash_refines_one_at_a_time_witness:
  "ascii_lower (codepoints ''Player_Ped'') = ascii_lower (codepoints ''PLAYER_ped'') \<and>
   joaat_hash ascii_lower (codepoints ''Player_Ped'')
     = joaat_hash ascii_lower (codepoints ''PLAYER_ped'') \<and>
   joaat_hash ascii_lower (codepoints ''Player_Ped'') = codepoints ''hash_3B599EAA''"
proof -
  have same: "ascii_lower (codepoints ''Player_Ped'') = ascii_lower (codepoints ''PLAYER_ped'')"
    by (simp add: ascii_lower_def codepoints_def)
  have tok: "joaat_hash ascii_lower (codepoints ''Player_Ped'') = codepoints ''hash_3B599EAA''"
    by (simp add: hash_eval)
  from joaat_hash_refines_one_at_a_time
    [of ascii_lower "codepoints ''Player_Ped''" "codepoints ''PLAYER_ped''"]
  have "joaat_hash ascii_lower (codepoints ''Player_Ped'')
     = joaat_hash ascii_lower (codepoints ''PLAYER_ped'')"
    using same by blast
  with same tok show ?thesis by blast
qed

text \<open>
  C2. The pattern matches at the start of a text exactly when a token starts there:
  the tag \<open>hash_\<close> and eight hexadecimal digits in either letter case. Cut the
  content in any way into plain stretches and tokens such that no token starts inside a
  plain stretch; such a cut exists, and its tokens are the matches of the pattern from
  left to right, none overlapping another. The substitution replaces
  each token that is a key of the table by the table's value, keeps each other token
  and keeps every plain stretch; the change flag is set exactly when the new content
  differs from the old.
\<close>

theorem substitute_replaces_scanned_tokens:
  "(match_here hash_pattern content \<longleftrightarrow> token_at content 0) \<and>
   (\<exists>segs. scanned segs \<and> concat (map source_text segs) = content) \<and>
   (\<forall>segs. scanned segs \<and> concat (map source_text segs) = content \<longrightarrow>
      fst (apply_substitution table content) = concat (map (replaced table) segs)) \<and>
   snd (apply_substitution table content) = (fst (apply_substitution table content) \<noteq> content)"
proof (intro conjI allI impI)
  show "match_here hash_pattern content \<longleftrightarrow> token_at content 0"
    by (simp add: match_here_token token_at_def)
next
  show "\<exists>segs. scanned segs \<and> concat (map source_text segs) = content"
    by (rule exists_scanned)
next
  fix segs assume "scanned segs \<and> concat (map source_text segs) = content"
  then show "fst (apply_substitution table content) = concat (map (replaced table) segs)"
    using scanned_substitute [of segs table] by (simp add: apply_substitution_def Let_def)
next
  show "snd (apply_substitution table content)
      = (fst (apply_substitution table content) \<noteq> content)"
    by (simp add: apply_substitution_def Let_def)
qed

theorem substitute_replaces_scanned_tokens_witness:
  "scanned [Plain (codepoints ''<''), Token (codepoints ''hash_3B599EAA''),
            Plain (codepoints '', ''), Token (codepoints ''hash_0000000a''), Plain (codepoints ''>'')] \<and>
   apply_substitution [codepoints ''hash_3B599EAA'' \<mapsto> codepoints ''Player_Ped'']
       (codepoints ''<hash_3B599EAA, hash_0000000a>'')
     = (codepoints ''<Player_Ped, hash_0000000a>'', True)"
proof -
  let ?segs = "[Plain (codepoints ''<''), Token (codepoints ''hash_3B599EAA''),
            Plain (codepoints '', ''), Token (codepoints ''hash_0000000a''), Plain (codepoints ''>'')]"
  let ?table = "[codepoints ''hash_3B599EAA'' \<mapsto> codepoints ''Player_Ped'']"
  let ?content = "codepoints ''<hash_3B599EAA, hash_0000000a>''"
  have sc: "scanned ?segs"
    by (simp add: codepoints_def token_at_def is_token_def is_hexdigit_def upt_rec)
  have src: "concat (map source_text ?segs) = ?content" by (simp add: codepoints_def)
  have rep: "concat (map (replaced ?table) ?segs) = codepoints ''<Player_Ped, hash_0000000a>''"
    by (simp add: codepoints_def)
  from substitute_replaces_scanned_tokens [of ?content ?table] sc src
  have f: "fst (apply_substitution ?table ?content) = concat (map (replaced ?table) ?segs)"
    and c: "snd (apply_substitution ?table ?content) = (fst (apply_substitution ?table ?content) \<noteq> ?content)"
    by blast+
  have ne: "codepoints ''<Player_Ped, hash_0000000a>'' \<noteq> ?content" by (simp add: codepoints_def)
  from f c rep ne have "apply_substitution ?table ?content = (codepoints ''<Player_Ped, hash_0000000a>'', True)"
    by (simp add: prod_eq_iff)
  with sc show ?thesis by blast
qed

text \<open>
  C10. On a content in which no token starts, the substitution returns the content
  itself and reports no change, whatever the table.
\<close>

theorem substitute_idempotent_without_token:
  "\<not> contains_token content \<Longrightarrow> apply_substitution table content = (content, False)"
  by (simp add: apply_substitution_def Let_def substitute_without_token)

theorem substitute_idempotent_without_token_witness:
  "\<not> contains_token (codepoints ''<Item>Player_Ped</Item>'') \<and>
   apply_substitution [codepoints ''hash_3B599EAA'' \<mapsto> codepoints ''Player_Ped'']
     (codepoints ''<Item>Player_Ped</Item>'') = (codepoints ''<Item>Player_Ped</Item>'', False)"
proof -
  have h: "\<not> contains_token (codepoints ''<Item>Player_Ped</Item>'')"
    by (simp add: contains_token_def codepoints_def token_at_def is_token_def upt_rec)
  from substitute_idempotent_without_token [OF h] h show ?thesis by blast
qed

text \<open>
  C3. Trimming takes the whitespace off both ends of a line: a line of whitespace only
  trims to the empty string, and a line made of whitespace, a text that begins and ends
  with other characters, and whitespace trims to that text. The table built from a
  sequence of lines maps a token to the trimmed form of the last line that is not blank
  and hashes to the token, and has no entry for any other key: its keys are the hashes
  of the trimmed non-blank lines, a blank line adds nothing, and a line that no later
  non-blank line collides with owns its entry.
\<close>

theorem load_nametable_last_line_wins:
  "(strip line = [] \<longleftrightarrow> list_all isspace line) \<and>
   (line = a @ t @ b \<and> list_all isspace a \<and> list_all isspace b \<and>
    t \<noteq> [] \<and> \<not> isspace (hd t) \<and> \<not> isspace (last t) \<longrightarrow> strip line = t) \<and>
   load_nametable_lines lower Map.empty lines k =
     (if [l \<leftarrow> map strip lines. l \<noteq> [] \<and> joaat_hash lower l = k] = [] then None
      else Some (last [l \<leftarrow> map strip lines. l \<noteq> [] \<and> joaat_hash lower l = k])) \<and>
   dom (load_nametable_lines lower Map.empty lines)
     = {joaat_hash lower (strip l) | l. l \<in> set lines \<and> strip l \<noteq> []} \<and>
   (lines = before @ line # later \<and> strip line \<noteq> [] \<and>
    (\<forall>l\<in>set later. strip l \<noteq> [] \<longrightarrow>
       joaat_hash lower (strip l) \<noteq> joaat_hash lower (strip line))
    \<longrightarrow> load_nametable_lines lower Map.empty lines (joaat_hash lower (strip line))
          = Some (strip line))"
proof (intro conjI impI)
  show "strip line = [] \<longleftrightarrow> list_all isspace line" by (rule strip_blank)
next
  assume "line = a @ t @ b \<and> list_all isspace a \<and> list_all isspace b \<and>
    t \<noteq> [] \<and> \<not> isspace (hd t) \<and> \<not> isspace (last t)"
  then show "strip line = t" using strip_unique [of line a t b] by blast
next
  show "load_nametable_lines lower Map.empty lines k =
     (if [l \<leftarrow> map strip lines. l \<noteq> [] \<and> joaat_hash lower l = k] = [] then None
      else Some (last [l \<leftarrow> map strip lines. l \<noteq> [] \<and> joaat_hash lower l = k]))"
    by (simp only: load_lookup [of lower Map.empty lines k])
next
  show "dom (load_nametable_lines lower Map.empty lines)
     = {joaat_hash lower (strip l) | l. l \<in> set lines \<and> strip l \<noteq> []}"
    by (rule load_dom)
next
  assume "lines = before @ line # later \<and> strip line \<noteq> [] \<and>
    (\<forall>l\<in>set later. strip l \<noteq> [] \<longrightarrow>
       joaat_hash lower (strip l) \<noteq> joaat_hash lower (strip line))"
  then show "load_nametable_lines lower Map.empty lines (joaat_hash lower (strip line))
          = Some (strip line)"
    using load_last_wins [of lines before line later lower Map.empty] by blast
qed

theorem load_nametable_last_line_wins_witness:
  "strip (codepoints ''  '' @ [10]) = [] \<and>
   strip (codepoints ''  PLAYER_PED '' @ [10]) = codepoints ''PLAYER_PED'' \<and>
   load_nametable_lines ascii_lower Map.empty
       [codepoints '' Player_Ped'' @ [10], codepoints ''  '' @ [10],
        codepoints ''  PLAYER_PED '' @ [10], [9, 10]]
       (codepoints ''hash_3B599EAA'')
     = Some (codepoints ''PLAYER_PED'') \<and>
   dom (load_nametable_lines ascii_lower Map.empty
       [codepoints '' Player_Ped'' @ [10], codepoints ''  '' @ [10],
        codepoints ''  PLAYER_PED '' @ [10], [9, 10]])
     = {codepoints ''hash_3B599EAA''}"
proof -
  let ?l1 = "codepoints '' Player_Ped'' @ [10]"
  let ?l2 = "codepoints ''  '' @ [10]"
  let ?l3 = "codepoints ''  PLAYER_PED '' @ [10]"
  let ?l4 = "[9, 10] :: pystr"
  let ?lines = "[?l1, ?l2, ?l3, ?l4]"
  note L = load_nametable_last_line_wins
  have b2: "strip ?l2 = []"
    using L [of ?l2] by (simp add: codepoints_def isspace_def)
  have b4: "strip ?l4 = []"
    using L [of ?l4] by (simp add: isspace_def)
  have "?l3 = codepoints ''  '' @ codepoints ''PLAYER_PED'' @ (codepoints '' '' @ [10]) \<and>
      list_all isspace (codepoints ''  '') \<and> list_all isspace (codepoints '' '' @ [10]) \<and>
      codepoints ''PLAYER_PED'' \<noteq> [] \<and> \<not> isspace (hd (codepoints ''PLAYER_PED'')) \<and>
      \<not> isspace (last (codepoints ''PLAYER_PED''))"
    by (simp add: codepoints_def isspace_def)
  with L [of ?l3 "codepoints ''  ''" "codepoints ''PLAYER_PED''" "codepoints '' '' @ [10]"]
  have s3: "strip ?l3 = codepoints ''PLAYER_PED''" by blast
  have "?l1 = codepoints '' '' @ codepoints ''Player_Ped'' @ [10] \<and>
      list_all isspace (codepoints '' '') \<and> list_all isspace [10] \<and>
      codepoints ''Player_Ped'' \<noteq> [] \<and> \<not> isspace (hd (codepoints ''Player_Ped'')) \<and>
      \<not> isspace (last (codepoints ''Player_Ped''))"
    by (simp add: codepoints_def isspace_def)
  with L [of ?l1 "codepoints '' ''" "codepoints ''Player_Ped''" "[10]"]
  have s1: "strip ?l1 = codepoints ''Player_Ped''" by blast
  have h3: "joaat_hash ascii_lower (codepoints ''PLAYER_PED'') = codepoints ''hash_3B599EAA''"
    by (simp add: hash_eval)
  have h1: "joaat_hash ascii_lower (codepoints ''Player_Ped'') = codepoints ''hash_3B599EAA''"
    by (simp add: hash_eval)
  have ne3: "codepoints ''PLAYER_PED'' \<noteq> []" and ne1: "codepoints ''Player_Ped'' \<noteq> []"
    by (simp_all add: codepoints_def)
  have "?lines = [?l1, ?l2] @ ?l3 # [?l4] \<and> strip ?l3 \<noteq> [] \<and>
    (\<forall>l\<in>set [?l4]. strip l \<noteq> [] \<longrightarrow>
       joaat_hash ascii_lower (strip l) \<noteq> joaat_hash ascii_lower (strip ?l3))"
    using ne3 b4 by (simp add: s3)
  with L [of ?l3 _ _ _ ascii_lower ?lines _ "[?l1, ?l2]" "[?l4]"]
  have "load_nametable_lines ascii_lower Map.empty ?lines
          (joaat_hash ascii_lower (strip ?l3)) = Some (strip ?l3)"
    by blast
  then have look: "load_nametable_lines ascii_lower Map.empty ?lines
          (codepoints ''hash_3B599EAA'') = Some (codepoints ''PLAYER_PED'')"
    by (simp only: s3 h3)
  from L [of _ _ _ _ ascii_lower ?lines]
  have "dom (load_nametable_lines ascii_lower Map.empty ?lines)
     = {joaat_hash ascii_lower (strip l) | l. l \<in> set ?lines \<and> strip l \<noteq> []}"
    by blast
  also have "\<dots> = (\<lambda>l. joaat_hash ascii_lower (strip l)) ` {l \<in> set ?lines. strip l \<noteq> []}"
    by auto
  also have "{l \<in> set ?lines. strip l \<noteq> []} = {?l1, ?l3}"
    using ne1 ne3 s1 b2 s3 b4 by auto
  also have "(\<lambda>l. joaat_hash ascii_lower (strip l)) ` {?l1, ?l3} = {codepoints ''hash_3B599EAA''}"
    by (simp add: s1 s3 h1 h3)
  finally have d: "dom (load_nametable_lines ascii_lower Map.empty ?lines)
     = {codepoints ''hash_3B599EAA''}" .
  from b2 s3 look d show ?thesis by blast
qed

text \<open>
  C7. A token of the content with a lower-case letter among its hexadecimal digits is
  kept as it is under every table built from lines, since every key of such a table is
  a hash and carries upper-case digits only.
\<close>

theorem lower_case_token_never_replaced:
  "is_token tok \<Longrightarrow> has_lower_hex tok \<Longrightarrow>
   substitute (load_nametable_lines lower Map.empty lines) (pre @ tok @ post)
     = substitute (load_nametable_lines lower Map.empty lines) pre @ tok
       @ substitute (load_nametable_lines lower Map.empty lines) post"
  using token_in_context [of tok "load_nametable_lines lower Map.empty lines" pre post]
  by (simp add: lookup_or_keep_def lower_hex_not_key)

theorem lower_case_token_never_replaced_witness:
  "is_token (codepoints ''hash_ca2e9442'') \<and> has_lower_hex (codepoints ''hash_ca2e9442'') \<and>
   load_nametable_lines ascii_lower Map.empty [codepoints ''a''] (codepoints ''hash_CA2E9442'')
     = Some (codepoints ''a'') \<and>
   substitute (load_nametable_lines ascii_lower Map.empty [codepoints ''a''])
       (codepoints ''<'' @ codepoints ''hash_ca2e9442'' @ codepoints ''>'')
     = codepoints ''<hash_ca2e9442>''"
proof -
  let ?tbl = "load_nametable_lines ascii_lower Map.empty [codepoints ''a'']"
  have t: "is_token (codepoints ''hash_ca2e9442'')"
    by (simp add: is_token_def codepoints_def is_hexdigit_def)
  have l: "has_lower_hex (codepoints ''hash_ca2e9442'')"
    by (simp add: has_lower_hex_def codepoints_def)
  have sa: "strip (codepoints ''a'') = codepoints ''a''" by (simp add: text_eval)
  have ha: "joaat_hash ascii_lower (codepoints ''a'') = codepoints ''hash_CA2E9442''"
    by (simp add: hash_eval)
  have key: "?tbl (codepoints ''hash_CA2E9442'') = Some (codepoints ''a'')"
    using sa ha by (simp add: codepoints_def)
  have nt: "\<not> contains_token (codepoints ''<'')" "\<not> contains_token (codepoints ''>'')"
    by (simp_all add: contains_token_def codepoints_def token_at_def is_token_def)
  from lower_case_token_never_replaced [OF t l, of ascii_lower "[codepoints ''a'']"
      "codepoints ''<''" "codepoints ''>''"]
  have "substitute ?tbl (codepoints ''<'' @ codepoints ''hash_ca2e9442'' @ codepoints ''>'')
     = codepoints ''<'' @ codepoints ''hash_ca2e9442'' @ codepoints ''>''"
    by (simp only: substitute_without_token [OF nt(1)] substitute_without_token [OF nt(2)])
  then have "substitute ?tbl (codepoints ''<'' @ codepoints ''hash_ca2e9442'' @ codepoints ''>'')
     = codepoints ''<hash_ca2e9442>''"
    by (simp add: codepoints_def)
  with t l key show ?thesis by blast
qed

text \<open>
  C4. For a non-blank line whose stripped form owns its entry in the table, the
  substitution turns the content made of its hash into the stripped line. The change
  flag is set exactly when the stripped line differs from its own hash: the name
  \<open>hash_5347A605\<close> hashes to itself, and for it the flag stays unset.
\<close>

theorem round_trip_of_winning_line:
  "line \<in> set lines \<Longrightarrow> strip line \<noteq> [] \<Longrightarrow>
   load_nametable_lines lower Map.empty lines (joaat_hash lower (strip line)) = Some (strip line) \<Longrightarrow>
   apply_substitution (load_nametable_lines lower Map.empty lines) (joaat_hash lower (strip line))
     = (strip line, strip line \<noteq> joaat_hash lower (strip line))"
  by (simp add: apply_substitution_def Let_def substitute_token [OF joaat_hash_is_token]
      lookup_or_keep_def)

theorem round_trip_of_winning_line_witness:
  "codepoints ''Player_Ped'' @ [10] \<in> set [codepoints ''Player_Ped'' @ [10]] \<and>
   strip (codepoints ''Player_Ped'' @ [10]) \<noteq> [] \<and>
   apply_substitution (load_nametable_lines ascii_lower Map.empty [codepoints ''Player_Ped'' @ [10]])
       (codepoints ''hash_3B599EAA'')
     = (codepoints ''Player_Ped'', True)"
proof -
  let ?line = "codepoints ''Player_Ped'' @ [10]"
  let ?L = "codepoints ''Player_Ped''"
  have s: "strip ?line = ?L" by (simp add: text_eval)
  have ne: "?L \<noteq> []" by (simp add: codepoints_def)
  have h: "joaat_hash ascii_lower ?L = codepoints ''hash_3B599EAA''" by (simp add: hash_eval)
  have m: "?line \<in> set [?line]" by simp
  have sne: "strip ?line \<noteq> []" by (simp add: text_eval)
  have win: "load_nametable_lines ascii_lower Map.empty [?line]
      (joaat_hash ascii_lower (strip ?line)) = Some (strip ?line)"
    using sne by simp
  have diff: "?L \<noteq> codepoints ''hash_3B599EAA''" by (simp add: codepoints_def)
  from round_trip_of_winning_line [OF m sne win]
  have "apply_substitution (load_nametable_lines ascii_lower Map.empty [?line])
       (codepoints ''hash_3B599EAA'') = (?L, True)"
    using diff by (simp only: s h) simp
  with m sne show ?thesis by blast
qed

theorem round_trip_counterexample:
  "strip (codepoints ''hash_5347A605'') \<noteq> [] \<and>
   load_nametable_lines ascii_lower Map.empty [codepoints ''hash_5347A605'']
       (joaat_hash ascii_lower (strip (codepoints ''hash_5347A605'')))
     = Some (strip (codepoints ''hash_5347A605'')) \<and>
   apply_substitution (load_nametable_lines ascii_lower Map.empty [codepoints ''hash_5347A605''])
       (joaat_hash ascii_lower (strip (codepoints ''hash_5347A605'')))
     = (strip (codepoints ''hash_5347A605''), False)"
proof -
  let ?L = "codepoints ''hash_5347A605''"
  have s: "strip ?L = ?L" by (simp add: text_eval)
  have ne: "?L \<noteq> []" by (simp add: codepoints_def)
  have h: "joaat_hash ascii_lower ?L = ?L" by (simp add: hash_eval)
  have tbl: "load_nametable_lines ascii_lower Map.empty [?L] = [?L \<mapsto> ?L]"
    using ne by (simp add: s h)
  have tok: "is_token ?L" using joaat_hash_is_token [of ascii_lower ?L] by (simp only: h)
  have "substitute [?L \<mapsto> ?L] ?L = ?L"
    by (simp add: substitute_token [OF tok] lookup_or_keep_def)
  then have "apply_substitution [?L \<mapsto> ?L] ?L = (?L, False)"
    by (simp add: apply_substitution_def)
  then show ?thesis using ne by (simp add: s h tbl)
qed

text \<open>
  C6. The tag \<open>hash_\<close> followed by fewer than eight hexadecimal digits, where the
  content ends or goes on with a character that is no hexadecimal digit, is kept as it
  is, in any context; so is a tag that is \<open>hash_\<close> in other letter case, with the
  digits behind it. The tag followed by more than eight digits is not kept: its first
  eight digits make a token, which is looked up in the table like any other, and
  \<open>hash_CA2E94420\<close> becomes \<open>a0\<close> under the table of the name \<open>a\<close>.
\<close>

theorem malformed_tokens_kept:
  "(list_all is_hexdigit ds \<and> length ds < 8 \<and> (post = [] \<or> \<not> is_hexdigit (hd post))
      \<longrightarrow> substitute table (pre @ (codepoints ''hash_'' @ ds) @ post)
            = substitute table pre @ (codepoints ''hash_'' @ ds) @ substitute table post) \<and>
   (ascii_lower tag = codepoints ''hash_'' \<and> tag \<noteq> codepoints ''hash_'' \<and>
    list_all is_hexdigit ds
      \<longrightarrow> substitute table (pre @ (tag @ ds) @ post)
            = substitute table pre @ (tag @ ds) @ substitute table post) \<and>
   (list_all is_hexdigit ds \<and> length ds = 8
      \<longrightarrow> substitute table (pre @ (codepoints ''hash_'' @ ds) @ post)
            = substitute table pre @ lookup_or_keep table (codepoints ''hash_'' @ ds)
              @ substitute table post)"
proof (intro conjI impI)
  assume "list_all is_hexdigit ds \<and> length ds < 8 \<and> (post = [] \<or> \<not> is_hexdigit (hd post))"
  then show "substitute table (pre @ (codepoints ''hash_'' @ ds) @ post)
            = substitute table pre @ (codepoints ''hash_'' @ ds) @ substitute table post"
    using short_token_kept [of ds post table pre] by blast
next
  assume "ascii_lower tag = codepoints ''hash_'' \<and> tag \<noteq> codepoints ''hash_'' \<and>
    list_all is_hexdigit ds"
  then show "substitute table (pre @ (tag @ ds) @ post)
            = substitute table pre @ (tag @ ds) @ substitute table post"
    using wrong_case_kept [of tag ds table pre post] by blast
next
  assume a: "list_all is_hexdigit ds \<and> length ds = 8"
  then have "is_token (codepoints ''hash_'' @ ds)" by (simp add: is_token_def codepoints_def)
  from token_in_context [OF this, of table pre post]
  show "substitute table (pre @ (codepoints ''hash_'' @ ds) @ post)
            = substitute table pre @ lookup_or_keep table (codepoints ''hash_'' @ ds)
              @ substitute table post" by simp
qed

theorem malformed_tokens_kept_counterexample:
  "list_all is_hexdigit (codepoints ''CA2E94420'') \<and> 8 < length (codepoints ''CA2E94420'') \<and>
   substitute (load_nametable_lines ascii_lower Map.empty [codepoints ''a''])
       (codepoints ''hash_'' @ codepoints ''CA2E94420'')
     = codepoints ''a0''"
proof -
  let ?tbl = "load_nametable_lines ascii_lower Map.empty [codepoints ''a'']"
  have sa: "strip (codepoints ''a'') = codepoints ''a''" by (simp add: text_eval)
  have ha: "joaat_hash ascii_lower (codepoints ''a'') = codepoints ''hash_CA2E9442''"
    by (simp add: hash_eval)
  have key: "?tbl (codepoints ''hash_CA2E9442'') = Some (codepoints ''a'')"
    using sa ha by (simp add: codepoints_def)
  have tok: "is_token (codepoints ''hash_CA2E9442'')"
    using joaat_hash_is_token [of ascii_lower "codepoints ''a''"] by (simp only: ha)
  have rest: "substitute ?tbl (codepoints ''0'') = codepoints ''0''"
    by (rule substitute_short) (simp add: codepoints_def)
  have "substitute ?tbl ([] @ codepoints ''hash_CA2E9442'' @ codepoints ''0'')
      = substitute ?tbl [] @ lookup_or_keep ?tbl (codepoints ''hash_CA2E9442'')
        @ substitute ?tbl (codepoints ''0'')"
    by (rule token_in_context [OF tok])
  also have "\<dots> = codepoints ''a'' @ codepoints ''0''"
    by (simp only: rest substitute_Nil lookup_or_keep_def key option.case append_Nil)
  finally have "substitute ?tbl (codepoints ''hash_'' @ codepoints ''CA2E94420'') = codepoints ''a0''"
    by (simp add: codepoints_def)
  moreover have "list_all is_hexdigit (codepoints ''CA2E94420'')"
    by (simp add: codepoints_def is_hexdigit_def)
  moreover have "8 < length (codepoints ''CA2E94420'')" by (simp add: codepoints_def)
  ultimately show ?thesis by blast
qed

theorem malformed_tokens_kept_witness:
  "substitute [codepoints ''hash_CA2E9442'' \<mapsto> codepoints ''a'']
       (codepoints ''<'' @ (codepoints ''hash_'' @ codepoints ''CA2E944'') @ codepoints ''>'')
     = codepoints ''<hash_CA2E944>'' \<and>
   substitute [codepoints ''hash_CA2E9442'' \<mapsto> codepoints ''a'']
       (codepoints ''<'' @ (codepoints ''HASH_'' @ codepoints ''CA2E9442'') @ codepoints ''>'')
     = codepoints ''<HASH_CA2E9442>'' \<and>
   substitute [codepoints ''hash_CA2E9442'' \<mapsto> codepoints ''a'']
       (codepoints ''<'' @ (codepoints ''hash_'' @ codepoints ''CA2E9442'') @ codepoints ''9>'')
     = codepoints ''<a9>''"
proof -
  let ?tbl = "[codepoints ''hash_CA2E9442'' \<mapsto> codepoints ''a'']"
  have pre: "substitute ?tbl (codepoints ''<'') = codepoints ''<''"
    by (rule substitute_short) (simp add: codepoints_def)
  have post: "substitute ?tbl (codepoints ''>'') = codepoints ''>''"
    by (rule substitute_short) (simp add: codepoints_def)
  have post9: "substitute ?tbl (codepoints ''9>'') = codepoints ''9>''"
    by (rule substitute_short) (simp add: codepoints_def)
  have h1: "list_all is_hexdigit (codepoints ''CA2E944'') \<and> length (codepoints ''CA2E944'') < 8 \<and>
      (codepoints ''>'' = [] \<or> \<not> is_hexdigit (hd (codepoints ''>'')))"
    by (simp add: codepoints_def is_hexdigit_def)
  have h2: "ascii_lower (codepoints ''HASH_'') = codepoints ''hash_'' \<and>
      codepoints ''HASH_'' \<noteq> codepoints ''hash_'' \<and> list_all is_hexdigit (codepoints ''CA2E9442'')"
    by (simp add: codepoints_def is_hexdigit_def ascii_lower_def)
  have h3: "list_all is_hexdigit (codepoints ''CA2E9442'') \<and> length (codepoints ''CA2E9442'') = 8"
    by (simp add: codepoints_def is_hexdigit_def)
  have key: "lookup_or_keep ?tbl (codepoints ''hash_'' @ codepoints ''CA2E9442'') = codepoints ''a''"
    by (simp add: lookup_or_keep_def codepoints_def)
  from malformed_tokens_kept [of "codepoints ''CA2E944''" "codepoints ''>''" ?tbl "codepoints ''<''"] h1
  have "substitute ?tbl (codepoints ''<'' @ (codepoints ''hash_'' @ codepoints ''CA2E944'') @ codepoints ''>'')
      = substitute ?tbl (codepoints ''<'') @ (codepoints ''hash_'' @ codepoints ''CA2E944'')
        @ substitute ?tbl (codepoints ''>'')"
    by blast
  then have r1: "substitute ?tbl (codepoints ''<'' @ (codepoints ''hash_'' @ codepoints ''CA2E944'') @ codepoints ''>'')
      = codepoints ''<hash_CA2E944>''"
    by (simp add: pre post) (simp add: codepoints_def)
  from malformed_tokens_kept [of "codepoints ''CA2E9442''" "codepoints ''>''" ?tbl "codepoints ''<''"
      "codepoints ''HASH_''"] h2
  have "substitute ?tbl (codepoints ''<'' @ (codepoints ''HASH_'' @ codepoints ''CA2E9442'') @ codepoints ''>'')
      = substitute ?tbl (codepoints ''<'') @ (codepoints ''HASH_'' @ codepoints ''CA2E9442'')
        @ substitute ?tbl (codepoints ''>'')"
    by blast
  then have r2: "substitute ?tbl (codepoints ''<'' @ (codepoints ''HASH_'' @ codepoints ''CA2E9442'') @ codepoints ''>'')
      = codepoints ''<HASH_CA2E9442>''"
    by (simp add: pre post) (simp add: codepoints_def)
  from malformed_tokens_kept [of "codepoints ''CA2E9442''" "codepoints ''9>''" ?tbl "codepoints ''<''"] h3
  have "substitute ?tbl (codepoints ''<'' @ (codepoints ''hash_'' @ codepoints ''CA2E9442'') @ codepoints ''9>'')
      = substitute ?tbl (codepoints ''<'') @ lookup_or_keep ?tbl (codepoints ''hash_'' @ codepoints ''CA2E9442'')
        @ substitute ?tbl (codepoints ''9>'')"
    by blast
  then have r3: "substitute ?tbl (codepoints ''<'' @ (codepoints ''hash_'' @ codepoints ''CA2E9442'') @ codepoints ''9>'')
      = codepoints ''<a9>''"
    by (simp add: pre post9 key) (simp add: codepoints_def)
  from r1 r2 r3 show ?thesis by blast
qed

text \<open>
  C9. For a file that can be read, \<open>process_xml_file\<close> writes it exactly when the
  substituted content differs from the content read: when nothing changes the file
  keeps its content and its write count, only the read is counted; when the content
  changes the new content is written, or the write fails with its error and the file
  stays as it was.
\<close>

theorem process_xml_file_writes_iff_changed:
  "fs p = Some f \<Longrightarrow> readable f \<Longrightarrow> decoded f = Some content \<Longrightarrow>
   (substitute table content = content \<longrightarrow>
      process_xml_file table p fs = (Inr (), fs(p \<mapsto> f\<lparr>reads := Suc (reads f)\<rparr>))) \<and>
   (substitute table content \<noteq> content \<and> writable f \<longrightarrow>
      process_xml_file table p fs
        = (Inr (), fs(p \<mapsto> f\<lparr>reads := Suc (reads f), decoded := Some (substitute table content),
                             writes := Suc (writes f)\<rparr>))) \<and>
   (substitute table content \<noteq> content \<and> \<not> writable f \<longrightarrow>
      process_xml_file table p fs
        = (Inl PermissionError, fs(p \<mapsto> f\<lparr>reads := Suc (reads f)\<rparr>))) \<and>
   (map_option writes (snd (process_xml_file table p fs) p) \<noteq> Some (writes f)
      \<longleftrightarrow> substitute table content \<noteq> content \<and> writable f)"
  by (simp add: process_xml_file_cases)

theorem process_xml_file_writes_iff_changed_witness:
  "process_xml_file example_table ''c.xml'' example_fs
     = (Inr (), example_fs(''c.xml'' \<mapsto> (plain_file (codepoints ''<a>''))\<lparr>reads := 1\<rparr>)) \<and>
   process_xml_file example_table ''b.xml'' example_fs
     = (Inr (), example_fs(''b.xml'' \<mapsto> (plain_file (codepoints ''<a>''))\<lparr>reads := 1, writes := 1\<rparr>))"
proof -
  have c: "example_fs ''c.xml'' = Some (plain_file (codepoints ''<a>''))"
    and b: "example_fs ''b.xml'' = Some (plain_file (codepoints ''<hash_CA2E9442>''))"
    by (simp_all add: example_fs_def)
  have rc: "readable (plain_file (codepoints ''<a>''))"
    and dc: "decoded (plain_file (codepoints ''<a>'')) = Some (codepoints ''<a>'')"
    and rb: "readable (plain_file (codepoints ''<hash_CA2E9442>''))"
    and wb: "writable (plain_file (codepoints ''<hash_CA2E9442>''))"
    and db: "decoded (plain_file (codepoints ''<hash_CA2E9442>'')) = Some (codepoints ''<hash_CA2E9442>'')"
    by (simp_all add: plain_file_def)
  have neq: "codepoints ''<a>'' \<noteq> codepoints ''<hash_CA2E9442>''" by (simp add: codepoints_def)
  from process_xml_file_writes_iff_changed [of example_fs "''c.xml''" "plain_file (codepoints ''<a>'')"
      "codepoints ''<a>''" example_table, OF c rc dc] example_substitute_c
  have 1: "process_xml_file example_table ''c.xml'' example_fs
     = (Inr (), example_fs(''c.xml'' \<mapsto> (plain_file (codepoints ''<a>''))\<lparr>reads := 1\<rparr>))"
    by (simp add: plain_file_def)
  from process_xml_file_writes_iff_changed [of example_fs "''b.xml''"
      "plain_file (codepoints ''<hash_CA2E9442>'')" "codepoints ''<hash_CA2E9442>''" example_table,
      OF b rb db] example_substitute_b wb neq
  have 2: "process_xml_file example_table ''b.xml'' example_fs
     = (Inr (), example_fs(''b.xml'' \<mapsto> (plain_file (codepoints ''<a>''))\<lparr>reads := 1, writes := 1\<rparr>))"
    by (simp add: plain_file_def)
  from 1 2 show ?thesis by blast
qed


text \<open>
  C8. When reading the list of names fails, \<open>load_nametable\<close> raises the error,
  \<open>main\<close> shows it and ends without processing any file: no file but the list is
  touched, and no file at all is written.
\<close>

theorem load_failure_aborts_run:
  "nametable_path \<noteq> [] \<Longrightarrow> xml_paths \<noteq> [] \<Longrightarrow> fst (read_text nametable_path fs) = Inl e \<Longrightarrow>
   fst (load_nametable lower nametable_path fs) = Inl e \<and>
   main lower nametable_path xml_paths started fs
     = (Some (ShowError e), snd (load_nametable lower nametable_path fs)) \<and>
   (\<forall>p. p \<noteq> nametable_path \<longrightarrow>
      snd (main lower nametable_path xml_paths started fs) p = fs p) \<and>
   (\<forall>p. map_option decoded (snd (main lower nametable_path xml_paths started fs) p)
          = map_option decoded (fs p) \<and>
        map_option writes (snd (main lower nametable_path xml_paths started fs) p)
          = map_option writes (fs p))"
  by (simp add: main_def load_nametable_fail read_text_other read_text_keeps)

theorem load_failure_aborts_run_witness:
  "main ascii_lower ''missing.txt'' [''b.xml'', ''c.xml''] all_started example_fs
     = (Some (ShowError FileNotFoundError), example_fs)"
proof -
  have r: "read_text ''missing.txt'' example_fs = (Inl FileNotFoundError, example_fs)"
    by (simp add: read_text_def example_fs_def)
  have h: "fst (read_text ''missing.txt'' example_fs) = Inl FileNotFoundError" by (simp add: r)
  have n1: "''missing.txt'' \<noteq> []" and n2: "[''b.xml'', ''c.xml''] \<noteq> []" by simp_all
  have l: "snd (load_nametable ascii_lower ''missing.txt'' example_fs) = example_fs"
    by (simp add: load_nametable_def r)
  from load_failure_aborts_run [OF n1 n2 h, of ascii_lower all_started] l
  show ?thesis by simp
qed

text \<open>
  C5. For distinct files: when every file can be processed, all are, the batch returns
  and the run shows success. When one fails, the batch raises the error of the first
  failing file of the list and the run shows that error instead of success; the files
  up to it are processed, and a later file is processed only if its task had started,
  and is left untouched otherwise. A processed file ends as if it had been processed
  alone. So a failure does abort the batch: with \<open>a.xml\<close> missing, the run over
  \<open>a.xml\<close> and \<open>b.xml\<close> ends with the error, and with no later task started
  \<open>b.xml\<close> keeps its token.
\<close>

theorem process_files_raises_first_failure:
  "distinct xml_files \<Longrightarrow>
   ((\<forall>p\<in>set xml_files. fst (process_xml_file table p fs) = Inr ()) \<longrightarrow>
      process_files table xml_files started fs
        = (Inr (), after_tasks table (set xml_files) fs)) \<and>
   (xml_files = before @ bad # later \<and>
    (\<forall>p\<in>set before. fst (process_xml_file table p fs) = Inr ()) \<and>
    fst (process_xml_file table bad fs) = Inl e \<longrightarrow>
      process_files table xml_files started fs
        = (Inl e, after_tasks table
             (set before \<union> {bad} \<union> set (started_files started (Suc (length before)) later)) fs)) \<and>
   (nametable_path \<noteq> [] \<and> xml_files \<noteq> [] \<and>
    load_nametable lower nametable_path fs0 = (Inr table, fs) \<and>
    (\<forall>p\<in>set xml_files. fst (process_xml_file table p fs) = Inr ()) \<longrightarrow>
      main lower nametable_path xml_files started fs0
        = (Some ShowInfo_Success, after_tasks table (set xml_files) fs)) \<and>
   (nametable_path \<noteq> [] \<and>
    load_nametable lower nametable_path fs0 = (Inr table, fs) \<and>
    xml_files = before @ bad # later \<and>
    (\<forall>p\<in>set before. fst (process_xml_file table p fs) = Inr ()) \<and>
    fst (process_xml_file table bad fs) = Inl e \<longrightarrow>
      main lower nametable_path xml_files started fs0
        = (Some (ShowError e), after_tasks table
             (set before \<union> {bad} \<union> set (started_files started (Suc (length before)) later)) fs))"
proof -
  assume d: "distinct xml_files"
  have A: "process_files table xml_files started fs
        = (Inr (), after_tasks table (set xml_files) fs)"
    if "\<forall>p\<in>set xml_files. fst (process_xml_file table p fs) = Inr ()"
    unfolding process_files_def using d that by (rule run_tasks_all_ok)
  have B: "process_files table xml_files started fs
        = (Inl e, after_tasks table
             (set before \<union> {bad} \<union> set (started_files started (Suc (length before)) later)) fs)"
    if h: "xml_files = before @ bad # later"
      "\<forall>p\<in>set before. fst (process_xml_file table p fs) = Inr ()"
      "fst (process_xml_file table bad fs) = Inl e"
  proof -
    from d h(1) have "distinct (before @ bad # later)" by simp
    from run_tasks_first_failure [OF this h(2) h(3), of started 0] h(1)
    show ?thesis by (simp add: process_files_def)
  qed
  have C: "main lower nametable_path xml_files started fs0
        = (Some ShowInfo_Success, after_tasks table (set xml_files) fs)"
    if "nametable_path \<noteq> []" "xml_files \<noteq> []"
      "load_nametable lower nametable_path fs0 = (Inr table, fs)"
      "\<forall>p\<in>set xml_files. fst (process_xml_file table p fs) = Inr ()"
    using main_after_load [OF that(1,2,3) A [OF that(4)]] by simp
  have D: "main lower nametable_path xml_files started fs0
        = (Some (ShowError e), after_tasks table
             (set before \<union> {bad} \<union> set (started_files started (Suc (length before)) later)) fs)"
    if "nametable_path \<noteq> []"
      "load_nametable lower nametable_path fs0 = (Inr table, fs)"
      "xml_files = before @ bad # later"
      "\<forall>p\<in>set before. fst (process_xml_file table p fs) = Inr ()"
      "fst (process_xml_file table bad fs) = Inl e"
  proof -
    have "xml_files \<noteq> []" using that(3) by simp
    from main_after_load [OF that(1) this that(2) B [OF that(3,4,5)]] show ?thesis by simp
  qed
  from A B C D show ?thesis by blast
qed

theorem process_files_raises_first_failure_witness:
  "process_files example_table [''c.xml'', ''b.xml''] none_started example_fs
     = (Inr (), after_tasks example_table {''c.xml'', ''b.xml''} example_fs) \<and>
   process_files example_table [''c.xml'', ''a.xml'', ''b.xml''] all_started example_fs
     = (Inl FileNotFoundError, after_tasks example_table {''c.xml'', ''a.xml'', ''b.xml''} example_fs) \<and>
   process_files example_table [''c.xml'', ''a.xml'', ''b.xml''] none_started example_fs
     = (Inl FileNotFoundError, after_tasks example_table {''c.xml'', ''a.xml''} example_fs) \<and>
   fst (main ascii_lower ''names.txt'' [''c.xml'', ''b.xml''] none_started example_fs)
     = Some ShowInfo_Success \<and>
   fst (main ascii_lower ''names.txt'' [''c.xml'', ''a.xml'', ''b.xml''] all_started example_fs)
     = Some (ShowError FileNotFoundError)"
proof -
  note T = process_files_raises_first_failure
  let ?fs1 = "example_fs(''names.txt'' \<mapsto> (plain_file (codepoints ''a'' @ [10]))\<lparr>reads := 1\<rparr>)"
  have d2: "distinct [''c.xml'', ''b.xml'']" and d3: "distinct [''c.xml'', ''a.xml'', ''b.xml'']"
    by simp_all
  have ok: "\<forall>p\<in>set [''c.xml'', ''b.xml'']. fst (process_xml_file example_table p example_fs) = Inr ()"
    by (simp add: example_b example_c)
  have fail: "[''c.xml'', ''a.xml'', ''b.xml''] = [''c.xml''] @ ''a.xml'' # [''b.xml''] \<and>
      (\<forall>p\<in>set [''c.xml'']. fst (process_xml_file example_table p example_fs) = Inr ()) \<and>
      fst (process_xml_file example_table ''a.xml'' example_fs) = Inl FileNotFoundError"
    by (simp add: example_a example_c)
  have same: "\<And>p f. p \<noteq> ''names.txt'' \<Longrightarrow>
      fst (process_xml_file example_table p (example_fs(''names.txt'' \<mapsto> f)))
        = fst (process_xml_file example_table p example_fs)"
    using process_local [of "example_fs(''names.txt'' \<mapsto> _)" _ example_fs example_table] by simp
  have ok1: "''names.txt'' \<noteq> [] \<and> [''c.xml'', ''b.xml''] \<noteq> [] \<and>
      load_nametable ascii_lower ''names.txt'' example_fs = (Inr example_table, ?fs1) \<and>
      (\<forall>p\<in>set [''c.xml'', ''b.xml'']. fst (process_xml_file example_table p ?fs1) = Inr ())"
    using ok by (simp add: example_load same)
  have fail1: "''names.txt'' \<noteq> [] \<and>
      load_nametable ascii_lower ''names.txt'' example_fs = (Inr example_table, ?fs1) \<and>
      [''c.xml'', ''a.xml'', ''b.xml''] = [''c.xml''] @ ''a.xml'' # [''b.xml''] \<and>
      (\<forall>p\<in>set [''c.xml'']. fst (process_xml_file example_table p ?fs1) = Inr ()) \<and>
      fst (process_xml_file example_table ''a.xml'' ?fs1) = Inl FileNotFoundError"
    using fail by (simp add: example_load same)
  from T [OF d2, where table = example_table and fs = example_fs and started = none_started] ok
  have 1: "process_files example_table [''c.xml'', ''b.xml''] none_started example_fs
     = (Inr (), after_tasks example_table (set [''c.xml'', ''b.xml'']) example_fs)"
    by blast
  from T [OF d3, where table = example_table and fs = example_fs and started = all_started
      and before = "[''c.xml'']" and bad = "''a.xml''" and later = "[''b.xml'']"
      and e = FileNotFoundError] fail
  have 2: "process_files example_table [''c.xml'', ''a.xml'', ''b.xml''] all_started example_fs
     = (Inl FileNotFoundError, after_tasks example_table
          (set [''c.xml''] \<union> {''a.xml''} \<union> set (started_files all_started (Suc (length [''c.xml''])) [''b.xml'']))
          example_fs)"
    by blast
  from T [OF d3, where table = example_table and fs = example_fs and started = none_started
      and before = "[''c.xml'']" and bad = "''a.xml''" and later = "[''b.xml'']"
      and e = FileNotFoundError] fail
  have 3: "process_files example_table [''c.xml'', ''a.xml'', ''b.xml''] none_started example_fs
     = (Inl FileNotFoundError, after_tasks example_table
          (set [''c.xml''] \<union> {''a.xml''} \<union> set (started_files none_started (Suc (length [''c.xml''])) [''b.xml'']))
          example_fs)"
    by blast
  from T [OF d2, where table = example_table and fs = ?fs1 and started = none_started
      and nametable_path = "''names.txt''" and lower = ascii_lower and ?fs0.0 = example_fs]
    ok1
  have "main ascii_lower ''names.txt'' [''c.xml'', ''b.xml''] none_started example_fs
     = (Some ShowInfo_Success, after_tasks example_table (set [''c.xml'', ''b.xml'']) ?fs1)"
    by blast
  then have 4: "fst (main ascii_lower ''names.txt'' [''c.xml'', ''b.xml''] none_started example_fs)
     = Some ShowInfo_Success"
    by (simp only: fst_conv)
  from T [OF d3, where table = example_table and fs = ?fs1 and started = all_started
      and before = "[''c.xml'']" and bad = "''a.xml''" and later = "[''b.xml'']"
      and e = FileNotFoundError
      and nametable_path = "''names.txt''" and lower = ascii_lower and ?fs0.0 = example_fs]
    fail1
  have "main ascii_lower ''names.txt'' [''c.xml'', ''a.xml'', ''b.xml''] all_started example_fs
     = (Some (ShowError FileNotFoundError), after_tasks example_table
          (set [''c.xml''] \<union> {''a.xml''} \<union> set (started_files all_started (Suc (length [''c.xml''])) [''b.xml'']))
          ?fs1)"
    by blast
  then have 5: "fst (main ascii_lower ''names.txt'' [''c.xml'', ''a.xml'', ''b.xml''] all_started example_fs)
     = Some (ShowError FileNotFoundError)"
    by (simp only: fst_conv)
  have s1: "set [''c.xml'', ''b.xml''] = {''c.xml'', ''b.xml''}" by simp
  have s2: "set [''c.xml''] \<union> {''a.xml''} \<union> set (started_files all_started (Suc (length [''c.xml''])) [''b.xml''])
      = {''c.xml'', ''a.xml'', ''b.xml''}"
    by (simp add: all_started_def insert_commute)
  have s3: "set [''c.xml''] \<union> {''a.xml''} \<union> set (started_files none_started (Suc (length [''c.xml''])) [''b.xml''])
      = {''c.xml'', ''a.xml''}"
    by (simp add: none_started_def insert_commute)
  from 1 2 3 have "process_files example_table [''c.xml'', ''b.xml''] none_started example_fs
     = (Inr (), after_tasks example_table {''c.xml'', ''b.xml''} example_fs) \<and>
   process_files example_table [''c.xml'', ''a.xml'', ''b.xml''] all_started example_fs
     = (Inl FileNotFoundError, after_tasks example_table {''c.xml'', ''a.xml'', ''b.xml''} example_fs) \<and>
   process_files example_table [''c.xml'', ''a.xml'', ''b.xml''] none_started example_fs
     = (Inl FileNotFoundError, after_tasks example_table {''c.xml'', ''a.xml''} example_fs)"
    by (simp only: s1 s2 s3)
  with 4 5 show ?thesis by blast
qed

theorem failure_isolation_counterexample:
  "process_files example_table [''a.xml'', ''b.xml''] none_started example_fs
     = (Inl FileNotFoundError, example_fs) \<and>
   fst (process_xml_file example_table ''b.xml'' example_fs) = Inr () \<and>
   snd (process_xml_file example_table ''b.xml'' example_fs) ''b.xml'' \<noteq> example_fs ''b.xml'' \<and>
   fst (process_files example_table [''a.xml'', ''b.xml''] all_started example_fs)
     = Inl FileNotFoundError \<and>
   fst (main ascii_lower ''names.txt'' [''a.xml'', ''b.xml''] all_started example_fs)
     = Some (ShowError FileNotFoundError)"
proof -
  have 1: "process_files example_table [''a.xml'', ''b.xml''] none_started example_fs
     = (Inl FileNotFoundError, example_fs)"
    by (simp add: process_files_def example_a none_started_def)
  have 2: "fst (process_xml_file example_table ''b.xml'' example_fs) = Inr ()"
    by (simp add: example_b)
  have 3: "snd (process_xml_file example_table ''b.xml'' example_fs) ''b.xml'' \<noteq> example_fs ''b.xml''"
    by (simp add: example_b) (simp add: example_fs_def plain_file_def)
  have 4: "fst (process_files example_table [''a.xml'', ''b.xml''] all_started example_fs)
     = Inl FileNotFoundError"
    by (rule process_files_head_fails) (simp_all add: example_a)
  let ?fs1 = "example_fs(''names.txt'' \<mapsto> (plain_file (codepoints ''a'' @ [10]))\<lparr>reads := 1\<rparr>)"
  have "fst (process_xml_file example_table ''a.xml'' ?fs1) = Inl FileNotFoundError"
    by (simp add: process_xml_file_cases example_fs_def)
  then have "fst (process_files example_table [''a.xml'', ''b.xml''] all_started ?fs1)
     = Inl FileNotFoundError"
    by (intro process_files_head_fails) simp_all
  then obtain fs2 where "process_files example_table [''a.xml'', ''b.xml''] all_started ?fs1
     = (Inl FileNotFoundError, fs2)"
    by (cases "process_files example_table [''a.xml'', ''b.xml''] all_started ?fs1") auto
  then have 5: "fst (main ascii_lower ''names.txt'' [''a.xml'', ''b.xml''] all_started example_fs)
     = Some (ShowError FileNotFoundError)"
    by (simp add: main_def example_load)
  from 1 2 3 4 5 show ?thesis by blast
qed

end
